theory Spec2Isabelle
  imports Complex_Main "HOL-Library.Multiset"
begin

section \<open>The condensed tree (hdbscan/plots.py)\<close>

text \<open>
  The raw tree is a numpy structured array with the fields \<open>parent\<close>, \<open>child\<close>,
  \<open>lambda\<close> and \<open>child_size\<close>; it is modelled as the list of its rows, in array
  order. Lambda values are reals (exact arithmetic, no rounding, no NaN); ids and sizes
  are unbounded integers (the sums of 64-bit sizes are taken not to overflow).
\<close>

record row =
  parent :: int
  child :: int
  lambda :: real
  child_size :: int

datatype error = KeyError | ValueError

text \<open>\<open>cluster_tree = condensed_tree[condensed_tree['child_size'] > 1]\<close>\<close>

definition cluster_tree :: "row list \<Rightarrow> row list" where
  "cluster_tree t = filter (\<lambda>r. child_size r > 1) t"

text \<open>
  \<open>get_leaves\<close>: the children of the cluster tree that are no parent in the
  cluster tree, in row order.
\<close>

definition get_leaves :: "row list \<Rightarrow> int list" where
  "get_leaves t =
     filter (\<lambda>c. filter (\<lambda>r. parent r = c) (cluster_tree t) = [])
       (map child (cluster_tree t))"

text \<open>
  \<open>bfs_from_cluster_tree\<close>: the \<open>while to_process\<close> loop has no bound of its own
  (on a cyclic table it runs forever), so it is a partial function: \<open>None\<close> is
  "does not return". \<open>np.in1d(tree['parent'], to_process)\<close> selects the rows whose
  parent is in \<open>to_process\<close>.
\<close>

partial_function (option) bfs_loop :: "row list \<Rightarrow> int list \<Rightarrow> int list \<Rightarrow> int list option" where
  "bfs_loop tree to_process result =
     (if to_process = [] then Some result
      else bfs_loop tree
             (map child (filter (\<lambda>r. parent r \<in> set to_process) tree))
             (result @ to_process))"

declare bfs_loop.simps [code]

definition bfs_from_cluster_tree :: "row list \<Rightarrow> int \<Rightarrow> int list option" where
  "bfs_from_cluster_tree tree bfs_root = bfs_loop tree [bfs_root] []"


section \<open>Cluster selection (\<open>_select_clusters\<close>)\<close>

text \<open>
  \<open>compute_stability\<close> lives in another module; its result, a dict from cluster
  id to score, is a parameter here, given as an association list (the first binding of
  a key counts). The loop works on two dicts, \<open>is_cluster\<close> and \<open>stability\<close>,
  the second updated in place.
\<close>

record selection =
  is_cluster :: "int \<rightharpoonup> bool"
  stability :: "int \<rightharpoonup> real"

text \<open>\<open>sorted(stability.keys(), reverse=True)[:-1]\<close>\<close>

definition node_list :: "(int \<times> real) list \<Rightarrow> int list" where
  "node_list stab = butlast (rev (sort (remdups (map fst stab))))"

text \<open>\<open>cluster_tree['child'][cluster_tree['parent'] == node]\<close>\<close>

definition children_of :: "row list \<Rightarrow> int \<Rightarrow> int list" where
  "children_of ct node = map child (filter (\<lambda>r. parent r = node) ct)"

text \<open>
  \<open>np.sum([stability[child] for child in ...])\<close>: a child without an entry raises
  \<open>KeyError\<close>.
\<close>

fun sum_stability :: "(int \<rightharpoonup> real) \<Rightarrow> int list \<Rightarrow> error + real" where
  "sum_stability st [] = Inr 0"
| "sum_stability st (c # cs) =
     (case st c of
        None \<Rightarrow> Inl KeyError
      | Some v \<Rightarrow> (case sum_stability st cs of Inl e \<Rightarrow> Inl e | Inr s \<Rightarrow> Inr (v + s)))"

text \<open>The inner \<open>for sub_node in bfs_from_cluster_tree(cluster_tree, node)\<close> loop.\<close>

definition mark_subtree :: "int \<Rightarrow> int list \<Rightarrow> (int \<rightharpoonup> bool) \<Rightarrow> (int \<rightharpoonup> bool)" where
  "mark_subtree node subs isc =
     fold (\<lambda>sub m. if sub \<noteq> node then m(sub \<mapsto> False) else m) subs isc"

text \<open>
  One pass of the body of \<open>for node in node_list\<close>. The outer \<open>option\<close> is
  \<open>None\<close> when the breadth-first search does not return.
\<close>

definition select_step :: "row list \<Rightarrow> int \<Rightarrow> selection \<Rightarrow> (error + selection) option" where
  "select_step ct node s =
     (case sum_stability (stability s) (children_of ct node) of
        Inl e \<Rightarrow> Some (Inl e)
      | Inr subtree_stability \<Rightarrow>
          (case stability s node of
             None \<Rightarrow> Some (Inl KeyError)
           | Some sn \<Rightarrow>
               if subtree_stability > sn
               then Some (Inr (s\<lparr>is_cluster := (is_cluster s)(node \<mapsto> False),
                                 stability := (stability s)(node \<mapsto> subtree_stability)\<rparr>))
               else (case bfs_from_cluster_tree ct node of
                       None \<Rightarrow> None
                     | Some subs \<Rightarrow>
                         Some (Inr (s\<lparr>is_cluster := mark_subtree node subs (is_cluster s)\<rparr>)))))"

fun select_loop :: "row list \<Rightarrow> int list \<Rightarrow> selection \<Rightarrow> (error + selection) option" where
  "select_loop ct [] s = Some (Inr s)"
| "select_loop ct (node # nodes) s =
     (case select_step ct node s of
        None \<Rightarrow> None
      | Some (Inl e) \<Rightarrow> Some (Inl e)
      | Some (Inr s') \<Rightarrow> select_loop ct nodes s')"

definition initial_selection :: "(int \<times> real) list \<Rightarrow> selection" where
  "initial_selection stab =
     \<lparr>is_cluster = map_of (map (\<lambda>c. (c, True)) (node_list stab)),
      stability = map_of stab\<rparr>"

text \<open>
  The result lists the keys of \<open>is_cluster\<close> whose value is true. Keys added by
  the inner loop carry \<open>False\<close>, so the true keys are among \<open>node_list\<close>.
\<close>

definition select_clusters :: "row list \<Rightarrow> (int \<times> real) list \<Rightarrow> (error + int list) option" where
  "select_clusters t stab =
     (case select_loop (cluster_tree t) (node_list stab) (initial_selection stab) of
        None \<Rightarrow> None
      | Some (Inl e) \<Rightarrow> Some (Inl e)
      | Some (Inr s) \<Rightarrow>
          Some (Inr (filter (\<lambda>c. is_cluster s c = Some True) (node_list stab))))"

section \<open>Layout (\<open>get_plot_data\<close>)\<close>

text \<open>\<open>raw_tree['parent'].min()\<close> and \<open>.max()\<close>; both raise on an empty array.\<close>

definition root_id :: "row list \<Rightarrow> int" where
  "root_id t = Min (set (map parent t))"

definition last_leaf :: "row list \<Rightarrow> int" where
  "last_leaf t = Max (set (map parent t))"

text \<open>\<open>range(last_leaf, root - 1, -1)\<close>\<close>

definition cluster_range :: "row list \<Rightarrow> int list" where
  "cluster_range t = rev [root_id t..last_leaf t]"

text \<open>
  The first loop, over \<open>cluster_x_coords\<close> and \<open>cluster_y_coords\<close>. Unpacking
  \<open>left_child, right_child = split['child']\<close> raises \<open>ValueError\<close> on more than
  two rows; the coordinate of a child not yet placed raises \<open>KeyError\<close>.
\<close>

fun coords_loop ::
  "row list \<Rightarrow> int list \<Rightarrow> (int \<rightharpoonup> real) \<times> (int \<rightharpoonup> real)
     \<Rightarrow> error + ((int \<rightharpoonup> real) \<times> (int \<rightharpoonup> real))" where
  "coords_loop t [] xy = Inr xy"
| "coords_loop t (cluster # cs) (x, y) =
     (let split = filter (\<lambda>r. parent r = cluster \<and> child_size r > 1) t in
      if length split > 1 then
        (case split of
           [l, r] \<Rightarrow>
             (case x (child l) of
                None \<Rightarrow> Inl KeyError
              | Some xl \<Rightarrow>
                  (case x (child r) of
                     None \<Rightarrow> Inl KeyError
                   | Some xr \<Rightarrow>
                       coords_loop t cs
                         (x(cluster \<mapsto> (xl + xr) / 2),
                          y(child l \<mapsto> lambda l, child r \<mapsto> lambda r))))
         | _ \<Rightarrow> Inl ValueError)
      else coords_loop t cs (x, y))"

text \<open>
  \<open>dict(zip(leaves, [leaf_separation * x for x in range(len(leaves))]))\<close> and
  \<open>{root : 0.0}\<close>, then the loop.
\<close>

definition initial_x :: "row list \<Rightarrow> real \<Rightarrow> (int \<rightharpoonup> real)" where
  "initial_x t leaf_separation =
     Map.empty (get_leaves t [\<mapsto>]
       map (\<lambda>i. leaf_separation * real i) [0..<length (get_leaves t)])"

definition cluster_coords ::
  "row list \<Rightarrow> real \<Rightarrow> error + ((int \<rightharpoonup> real) \<times> (int \<rightharpoonup> real))" where
  "cluster_coords t leaf_separation =
     coords_loop t (cluster_range t)
       (initial_x t leaf_separation, [root_id t \<mapsto> 0])"

text \<open>
  A bar is one entry of the four parallel lists \<open>bar_centers\<close>, \<open>bar_tops\<close>,
  \<open>bar_bottoms\<close>, \<open>bar_widths\<close>, which are always appended to together.
\<close>

record bar =
  bar_center :: real
  bar_top :: real
  bar_bottom :: real
  bar_width :: real

text \<open>
  The inner loop \<open>for i in np.argsort(c_children['lambda'])\<close>, over the rows
  already in sorted order. In the logarithmic mode numpy gives \<open>-inf\<close> for
  \<open>log(0)\<close> (with a warning, no exception), where \<open>ln 0\<close> is some real; with
  positive sizes this happens only after the last row of a cluster, when the running
  size is not read again.
\<close>

fun bar_loop :: "bool \<Rightarrow> real \<Rightarrow> row list \<Rightarrow> real \<Rightarrow> real \<Rightarrow> bar list" where
  "bar_loop log_size ctr [] current_size current_lambda = []"
| "bar_loop log_size ctr (r # rs) current_size current_lambda =
     (if lambda r \<noteq> current_lambda
      then [\<lparr>bar_center = ctr, bar_top = lambda r - current_lambda,
             bar_bottom = current_lambda, bar_width = current_size\<rparr>]
      else [])
     @ bar_loop log_size ctr rs
         (if log_size then ln (exp current_size - real_of_int (child_size r))
          else current_size - real_of_int (child_size r))
         (lambda r)"

text \<open>
  The second loop: bounds and bars of each cluster of the range. \<open>np.max\<close> of an
  empty column raises \<open>ValueError\<close>. \<open>np.argsort\<close> is modelled by the stable
  \<open>sort_key\<close>; rows of equal lambda emit no bar after the first, so their order
  among themselves does not show in the bars (lemma \<open>bar_loop_any_argsort\<close>).
\<close>

fun bounds_loop ::
  "row list \<Rightarrow> bool \<Rightarrow> real \<Rightarrow> (int \<rightharpoonup> real) \<Rightarrow> (int \<rightharpoonup> real) \<Rightarrow> int list
     \<Rightarrow> error + (bar list \<times> (int \<times> real list) list)" where
  "bounds_loop t log_size scaling x y [] = Inr ([], [])"
| "bounds_loop t log_size scaling x y (c # cs) =
     (let c_children = filter (\<lambda>r. parent r = c) t;
          total = real_of_int (sum_list (map child_size c_children))
      in case y c of
           None \<Rightarrow> Inl KeyError
         | Some current_lambda \<Rightarrow>
             (let current_size = (if log_size then ln total else total)
              in case x c of
                   None \<Rightarrow> Inl KeyError
                 | Some xc \<Rightarrow>
                     (case c_children of
                        [] \<Rightarrow> Inl ValueError
                      | r # rs \<Rightarrow>
                          (case bounds_loop t log_size scaling x y cs of
                             Inl e \<Rightarrow> Inl e
                           | Inr (bars, bounds) \<Rightarrow>
                               Inr (bar_loop log_size (xc * scaling)
                                      (sort_key lambda c_children) current_size current_lambda
                                    @ bars,
                                    (c, [xc * scaling - current_size / 2,
                                         xc * scaling + current_size / 2,
                                         current_lambda,
                                         fold max (map lambda rs) (lambda r)])
                                    # bounds)))))"

text \<open>The third loop, one line per row of the cluster tree.\<close>

fun lines_loop ::
  "bool \<Rightarrow> real \<Rightarrow> (int \<rightharpoonup> real) \<Rightarrow> (int \<rightharpoonup> real) \<Rightarrow> row list
     \<Rightarrow> error + (real list \<times> real list) list" where
  "lines_loop log_size scaling x y [] = Inr []"
| "lines_loop log_size scaling x y (r # rs) =
     (case x (child r) of
        None \<Rightarrow> Inl KeyError
      | Some xc \<Rightarrow>
          (case x (parent r) of
             None \<Rightarrow> Inl KeyError
           | Some xp \<Rightarrow>
               (case y (child r) of
                  None \<Rightarrow> Inl KeyError
                | Some yc \<Rightarrow>
                    (case lines_loop log_size scaling x y rs of
                       Inl e \<Rightarrow> Inl e
                     | Inr ls \<Rightarrow>
                         (let size = (if log_size then ln (real_of_int (child_size r))
                                      else real_of_int (child_size r))
                          in Inr (([xp * scaling, xc * scaling + sgn (xc - xp) * (size / 2)],
                                   [yc, yc]) # ls))))))"

record plot_data =
  bar_centers :: "real list"
  bar_tops :: "real list"
  bar_bottoms :: "real list"
  bar_widths :: "real list"
  line_xs :: "real list list"
  line_ys :: "real list list"
  cluster_bounds :: "(int \<times> real list) list"

text \<open>\<open>np.sum(raw_tree[raw_tree['parent'] == root]['child_size'])\<close>, or its log.\<close>

definition scaling_of :: "row list \<Rightarrow> bool \<Rightarrow> real" where
  "scaling_of t log_size =
     (let s = real_of_int (sum_list (map child_size (filter (\<lambda>r. parent r = root_id t) t)))
      in if log_size then ln s else s)"

definition get_plot_data :: "row list \<Rightarrow> real \<Rightarrow> bool \<Rightarrow> error + plot_data" where
  "get_plot_data t leaf_separation log_size =
     (if t = [] then Inl ValueError
      else
        (case cluster_coords t leaf_separation of
           Inl e \<Rightarrow> Inl e
         | Inr (x, y) \<Rightarrow>
             (case bounds_loop t log_size (scaling_of t log_size) x y (cluster_range t) of
                Inl e \<Rightarrow> Inl e
              | Inr (bars, bounds) \<Rightarrow>
                  (case lines_loop log_size (scaling_of t log_size) x y (cluster_tree t) of
                     Inl e \<Rightarrow> Inl e
                   | Inr ls \<Rightarrow>
                       Inr \<lparr>bar_centers = map bar_center bars,
                            bar_tops = map bar_top bars,
                            bar_bottoms = map bar_bottom bars,
                            bar_widths = map bar_width bars,
                            line_xs = map fst ls,
                            line_ys = map snd ls,
                            cluster_bounds = bounds\<rparr>))))"


section \<open>Well-formed trees\<close>

text \<open>The edges of the cluster tree, and "a is a proper ancestor of d".\<close>

definition edges :: "row list \<Rightarrow> (int \<times> int) set" where
  "edges ct = set (map (\<lambda>r. (parent r, child r)) ct)"

definition is_ancestor :: "row list \<Rightarrow> int \<Rightarrow> int \<Rightarrow> bool" where
  "is_ancestor ct a d \<longleftrightarrow> (a, d) \<in> (edges ct)\<^sup>+"

text \<open>
  The invariants of the data model: sizes are positive and lambdas non-negative; the
  rows with \<open>child_size > 1\<close> form a tree below the root \<open>min(parent)\<close>, that
  is, they have no cycle, every cluster has one parent row, the root has none, and
  every parent is the root or a cluster; a cluster has at most two cluster children.
  Nothing is said about the order of the ids.
\<close>

definition well_formed :: "row list \<Rightarrow> bool" where
  "well_formed t \<longleftrightarrow>
     t \<noteq> [] \<and>
     (\<forall>r\<in>set t. 1 \<le> child_size r \<and> 0 \<le> lambda r) \<and>
     acyclic (edges (cluster_tree t)) \<and>
     distinct (map child (cluster_tree t)) \<and>
     root_id t \<notin> set (map child (cluster_tree t)) \<and>
     (\<forall>r\<in>set t. parent r = root_id t \<or> parent r \<in> set (map child (cluster_tree t))) \<and>
     (\<forall>r\<in>set (cluster_tree t). length (children_of (cluster_tree t) (parent r)) \<le> 2)"

text \<open>
  The convention both operations rely on when they walk the ids downwards: a cluster
  child has a larger id than its parent. It is no invariant of the data model and is
  named wherever a statement needs it.
\<close>

definition id_ordered :: "row list \<Rightarrow> bool" where
  "id_ordered t \<longleftrightarrow> (\<forall>r\<in>set (cluster_tree t). parent r < child r)"

text \<open>
  A stability map of a tree has a score for every cluster other than the root, that
  is, for every child of the cluster tree. The root may have a score or not.
\<close>

definition stability_covers :: "row list \<Rightarrow> (int \<times> real) list \<Rightarrow> bool" where
  "stability_covers t stab \<longleftrightarrow>
     set (map child (cluster_tree t)) \<subseteq> set (map fst stab)"

text \<open>
  What the layout loops need beyond well-formedness and the order of the ids: the
  cluster tree is not empty, a cluster that splits has exactly two cluster children,
  and every id from the root to \<open>max(parent)\<close> is the parent of some row.
\<close>

definition layout_ready :: "row list \<Rightarrow> bool" where
  "layout_ready t \<longleftrightarrow>
     cluster_tree t \<noteq> [] \<and>
     (\<forall>r\<in>set (cluster_tree t). length (children_of (cluster_tree t) (parent r)) = 2) \<and>
     (\<forall>c\<in>set (cluster_range t). c \<in> set (map parent t))"

text \<open>Every cluster has rows of its own, that is, occurs as a parent.\<close>

definition clusters_have_rows :: "row list \<Rightarrow> bool" where
  "clusters_have_rows t \<longleftrightarrow> (\<forall>r\<in>set (cluster_tree t). child r \<in> set (map parent t))"

section \<open>Concrete trees\<close>

text \<open>
  The scenario of the specification: root 0 splits into 1 and 2 at lambda 0.5 (sizes
  40 and 60), cluster 1 splits into 3 and 4 at lambda 1.0 (sizes 15 and 25).
\<close>

definition scenario_tree :: "row list" where
  "scenario_tree =
     [\<lparr>parent = 0, child = 1, lambda = 1 / 2, child_size = 40\<rparr>,
      \<lparr>parent = 0, child = 2, lambda = 1 / 2, child_size = 60\<rparr>,
      \<lparr>parent = 1, child = 3, lambda = 1, child_size = 15\<rparr>,
      \<lparr>parent = 1, child = 4, lambda = 1, child_size = 25\<rparr>]"

text \<open>The scores the specification gives for the scenario; the root has none.\<close>

definition scenario_stability :: "(int \<times> real) list" where
  "scenario_stability = [(1, 5), (2, 5), (3, 2), (4, 2)]"

text \<open>
  A tree as the clustering builds it: the points 0 to 4, the root 5 and its two
  clusters 6 and 7, each cluster with the rows of the points that leave it.
\<close>

definition example_tree :: "row list" where
  "example_tree =
     [\<lparr>parent = 5, child = 0, lambda = 1 / 5, child_size = 1\<rparr>,
      \<lparr>parent = 5, child = 6, lambda = 1 / 2, child_size = 2\<rparr>,
      \<lparr>parent = 5, child = 7, lambda = 1 / 2, child_size = 2\<rparr>,
      \<lparr>parent = 6, child = 1, lambda = 4 / 5, child_size = 1\<rparr>,
      \<lparr>parent = 6, child = 2, lambda = 9 / 10, child_size = 1\<rparr>,
      \<lparr>parent = 7, child = 3, lambda = 7 / 10, child_size = 1\<rparr>,
      \<lparr>parent = 7, child = 4, lambda = 7 / 10, child_size = 1\<rparr>]"

text \<open>A single cluster: every child of the root is a point.\<close>

definition single_cluster_tree :: "row list" where
  "single_cluster_tree =
     [\<lparr>parent = 0, child = 10, lambda = 3 / 10, child_size = 1\<rparr>,
      \<lparr>parent = 0, child = 11, lambda = 3 / 5, child_size = 1\<rparr>]"

text \<open>A root with one cluster child and one point.\<close>

definition chain_tree :: "row list" where
  "chain_tree =
     [\<lparr>parent = 0, child = 1, lambda = 1 / 2, child_size = 2\<rparr>,
      \<lparr>parent = 0, child = 10, lambda = 1 / 5, child_size = 1\<rparr>,
      \<lparr>parent = 1, child = 11, lambda = 4 / 5, child_size = 1\<rparr>,
      \<lparr>parent = 1, child = 12, lambda = 9 / 10, child_size = 1\<rparr>]"

text \<open>
  Three levels of clusters: the scenario with cluster 3 split again into 5 and 6.
  The scores make cluster 3 tie with its children and cluster 1 beat its own.
\<close>

definition deep_tree :: "row list" where
  "deep_tree =
     [\<lparr>parent = 0, child = 1, lambda = 1 / 2, child_size = 40\<rparr>,
      \<lparr>parent = 0, child = 2, lambda = 1 / 2, child_size = 60\<rparr>,
      \<lparr>parent = 1, child = 3, lambda = 1, child_size = 15\<rparr>,
      \<lparr>parent = 1, child = 4, lambda = 1, child_size = 25\<rparr>,
      \<lparr>parent = 3, child = 5, lambda = 2, child_size = 7\<rparr>,
      \<lparr>parent = 3, child = 6, lambda = 2, child_size = 8\<rparr>]"

definition deep_stability :: "(int \<times> real) list" where
  "deep_stability = [(0, 0), (1, 10), (2, 5), (3, 2), (4, 1), (5, 1), (6, 1)]"

text \<open>
  On the same tree: cluster 3 beats its children (2 < 3) and cluster 1 beats its own.
\<close>

definition deep_strict_stability :: "(int \<times> real) list" where
  "deep_strict_stability = [(0, 0), (1, 10), (2, 5), (3, 3), (4, 1), (5, 1), (6, 1)]"

text \<open>
  On the same tree: the children of cluster 3 beat it (2 > 1), and with the rewritten
  score of 3 the children of cluster 1 beat it too (2 + 1 > 5/2).
\<close>

definition rewrite_stability :: "(int \<times> real) list" where
  "rewrite_stability = [(0, 0), (1, 5 / 2), (2, 5), (3, 1), (4, 1), (5, 1), (6, 1)]"

text \<open>
  A tree whose ids do not follow the hierarchy: root 0 splits into 5 and 6, cluster 5
  into 1 and 2, cluster 1 into 3 and 4. With the first scores the children of
  cluster 1 beat it (10 > 3); with the second they tie with it (10 = 10).
\<close>

definition unordered_tree :: "row list" where
  "unordered_tree =
     [\<lparr>parent = 0, child = 5, lambda = 1 / 2, child_size = 60\<rparr>,
      \<lparr>parent = 0, child = 6, lambda = 1 / 2, child_size = 40\<rparr>,
      \<lparr>parent = 5, child = 1, lambda = 1, child_size = 35\<rparr>,
      \<lparr>parent = 5, child = 2, lambda = 1, child_size = 25\<rparr>,
      \<lparr>parent = 1, child = 3, lambda = 2, child_size = 15\<rparr>,
      \<lparr>parent = 1, child = 4, lambda = 2, child_size = 20\<rparr>]"

definition unordered_stability :: "(int \<times> real) list" where
  "unordered_stability = [(0, 0), (1, 3), (2, 1), (3, 5), (4, 5), (5, 8), (6, 5)]"

definition unordered_tie_stability :: "(int \<times> real) list" where
  "unordered_tie_stability = [(0, 0), (1, 10), (2, 1), (3, 5), (4, 5), (5, 20), (6, 5)]"

text \<open>
  Another one, with every id from 0 to 2 a parent: root 0 splits into 2 and 5,
  cluster 2 into 1 and 6, cluster 1 into 3 and 4.
\<close>

definition unordered_layout_tree :: "row list" where
  "unordered_layout_tree =
     [\<lparr>parent = 0, child = 2, lambda = 1 / 2, child_size = 60\<rparr>,
      \<lparr>parent = 0, child = 5, lambda = 1 / 2, child_size = 40\<rparr>,
      \<lparr>parent = 2, child = 1, lambda = 1, child_size = 35\<rparr>,
      \<lparr>parent = 2, child = 6, lambda = 1, child_size = 25\<rparr>,
      \<lparr>parent = 1, child = 3, lambda = 2, child_size = 15\<rparr>,
      \<lparr>parent = 1, child = 4, lambda = 2, child_size = 20\<rparr>]"

section \<open>Cycles and the order of the ids\<close>

lemma edges_iff: "(a, b) \<in> edges ct \<longleftrightarrow> (\<exists>r\<in>set ct. parent r = a \<and> child r = b)"
  by (auto simp: edges_def image_iff)

lemma edges_Image: "set (map child (filter (\<lambda>r. parent r \<in> S) ct)) = edges ct `` S"
  by (auto simp: edges_def image_iff)

text \<open>A ranking that falls along every edge excludes cycles.\<close>

lemma ranked_acyclic:
  fixes rank :: "int \<Rightarrow> int"
  assumes "\<forall>r\<in>set ct. rank (child r) < rank (parent r)"
  shows "acyclic (edges ct)"
proof (rule acyclicI_order [where f = rank])
  fix a b assume "(a, b) \<in> edges ct"
  with assms show "rank b < rank a" by (auto simp: edges_iff)
qed

lemma id_ordered_acyclic: "id_ordered t \<Longrightarrow> acyclic (edges (cluster_tree t))"
  by (rule ranked_acyclic [where rank = uminus]) (simp add: id_ordered_def)

lemma well_formed_acyclic: "well_formed t \<Longrightarrow> acyclic (edges (cluster_tree t))"
  by (simp add: well_formed_def)

lemma not_own_ancestor: "acyclic (edges ct) \<Longrightarrow> \<not> is_ancestor ct n n"
  by (simp add: acyclic_def is_ancestor_def)

lemma is_ancestor_trans: "is_ancestor ct a b \<Longrightarrow> is_ancestor ct b c \<Longrightarrow> is_ancestor ct a c"
  unfolding is_ancestor_def by (rule trancl_trans)

lemma ancestor_less:
  assumes ord: "\<forall>r\<in>set ct. parent r < child r"
  shows "is_ancestor ct a d \<Longrightarrow> a < d"
  unfolding is_ancestor_def
proof (induction rule: trancl.induct)
  case (r_into_trancl a b)
  with ord show ?case by (auto simp: edges_iff)
next
  case (trancl_into_trancl a b c)
  with ord show ?case by (fastforce simp: edges_iff)
qed

section \<open>Evaluation on concrete trees\<close>

lemmas layout_eval =
  get_plot_data_def cluster_coords_def cluster_range_def root_id_def last_leaf_def
  upto.simps initial_x_def get_leaves_def cluster_tree_def scaling_of_def

lemmas select_eval =
  select_clusters_def node_list_def initial_selection_def cluster_tree_def
  select_step_def children_of_def bfs_from_cluster_tree_def bfs_loop.simps
  mark_subtree_def

lemma id_ordered_scenario_tree: "id_ordered scenario_tree"
  by (simp add: id_ordered_def scenario_tree_def cluster_tree_def)

lemma well_formed_scenario_tree: "well_formed scenario_tree"
proof -
  from id_ordered_acyclic [OF id_ordered_scenario_tree] show ?thesis
    by (simp add: well_formed_def)
       (simp add: scenario_tree_def cluster_tree_def root_id_def children_of_def)
qed

lemma id_ordered_example_tree: "id_ordered example_tree"
  by (simp add: id_ordered_def example_tree_def cluster_tree_def)

lemma well_formed_example_tree: "well_formed example_tree"
proof -
  from id_ordered_acyclic [OF id_ordered_example_tree] show ?thesis
    by (simp add: well_formed_def)
       (simp add: example_tree_def cluster_tree_def root_id_def children_of_def)
qed

lemma id_ordered_single_cluster_tree: "id_ordered single_cluster_tree"
  by (simp add: id_ordered_def single_cluster_tree_def cluster_tree_def)

lemma well_formed_single_cluster_tree: "well_formed single_cluster_tree"
proof -
  from id_ordered_acyclic [OF id_ordered_single_cluster_tree] show ?thesis
    by (simp add: well_formed_def)
       (simp add: single_cluster_tree_def cluster_tree_def root_id_def children_of_def)
qed

lemma id_ordered_chain_tree: "id_ordered chain_tree"
  by (simp add: id_ordered_def chain_tree_def cluster_tree_def)

lemma well_formed_chain_tree: "well_formed chain_tree"
proof -
  from id_ordered_acyclic [OF id_ordered_chain_tree] show ?thesis
    by (simp add: well_formed_def)
       (simp add: chain_tree_def cluster_tree_def root_id_def children_of_def)
qed

lemma id_ordered_deep_tree: "id_ordered deep_tree"
  by (simp add: id_ordered_def deep_tree_def cluster_tree_def)

lemma well_formed_deep_tree: "well_formed deep_tree"
proof -
  from id_ordered_acyclic [OF id_ordered_deep_tree] show ?thesis
    by (simp add: well_formed_def)
       (simp add: deep_tree_def cluster_tree_def root_id_def children_of_def)
qed

lemma well_formed_unordered_tree: "well_formed unordered_tree"
proof -
  have "acyclic (edges (cluster_tree unordered_tree))"
    by (rule ranked_acyclic [where rank = "\<lambda>x. if x = 0 then 3 else if x = 5 \<or> x = 6 then 2 else if x = 1 \<or> x = 2 then 1 else 0"])
       (simp add: unordered_tree_def cluster_tree_def)
  then show ?thesis
    by (simp add: well_formed_def)
       (simp add: unordered_tree_def cluster_tree_def root_id_def children_of_def)
qed

lemma well_formed_unordered_layout_tree: "well_formed unordered_layout_tree"
proof -
  have "acyclic (edges (cluster_tree unordered_layout_tree))"
    by (rule ranked_acyclic [where rank = "\<lambda>x. if x = 0 then 3 else if x = 2 \<or> x = 5 then 2 else if x = 1 \<or> x = 6 then 1 else 0"])
       (simp add: unordered_layout_tree_def cluster_tree_def)
  then show ?thesis
    by (simp add: well_formed_def)
       (simp add: unordered_layout_tree_def cluster_tree_def root_id_def children_of_def)
qed

lemma not_id_ordered_unordered_tree: "\<not> id_ordered unordered_tree"
  by (simp add: id_ordered_def unordered_tree_def cluster_tree_def)

lemma not_id_ordered_unordered_layout_tree: "\<not> id_ordered unordered_layout_tree"
  by (simp add: id_ordered_def unordered_layout_tree_def cluster_tree_def)

section \<open>The scenario of the specification\<close>

text \<open>
  C5, as stated: on the scenario tree the layout has three bars, one each for the
  clusters 0, 1 and 2, and exactly two connector lines. It has two bars and four
  lines: the second loop runs over the ids from \<open>max(parent) = 1\<close> down to the
  root and never reaches cluster 2, and the third loop emits one line for every row
  of the cluster tree, also for the edges from 1 to 3 and from 1 to 4.
\<close>

theorem scenario_lines_counterexample:
  "map_sum id (\<lambda>r. (length (bar_widths r), length (line_xs r)))
     (get_plot_data scenario_tree 1 False) = Inr (2, 4)"
  by (simp add: layout_eval scenario_tree_def)

text \<open>
  C5, amended: on the scenario tree, for every leaf separation, the leaves are 2, 3, 4
  with x-coordinates 0, 1, 2 times the separation, the x of cluster 1 is the mean of
  those of 3 and 4, the y of 1 and of 2 is 0.5; there is one bar for cluster 1 and one
  for cluster 0 (in this order; none for cluster 2, which is no parent and so lies
  beyond \<open>max(parent) = 1\<close>), and four connector lines, one per row of the cluster
  tree.
\<close>

theorem scenario_layout:
  "get_leaves scenario_tree = [2, 3, 4] \<and>
   map_sum id (\<lambda>(x, y). (map x [2, 3, 4, 1], map y [1, 2]))
     (cluster_coords scenario_tree sep) =
     Inr ([Some 0, Some sep, Some (2 * sep), Some ((sep + 2 * sep) / 2)],
          [Some (1 / 2), Some (1 / 2)]) \<and>
   map_sum id (\<lambda>r. (bar_centers r, bar_bottoms r, bar_tops r, bar_widths r))
     (get_plot_data scenario_tree sep False) =
     Inr ([3 * sep / 2 * 100, 3 * sep / 4 * 100], [1 / 2, 0], [1 / 2, 1 / 2], [40, 100]) \<and>
   map_sum id (\<lambda>r. (map hd (line_xs r), line_ys r))
     (get_plot_data scenario_tree sep False) =
     Inr ([3 * sep / 4 * 100, 3 * sep / 4 * 100, 3 * sep / 2 * 100, 3 * sep / 2 * 100],
          [[1 / 2, 1 / 2], [1 / 2, 1 / 2], [1, 1], [1, 1]])"
  by (simp add: layout_eval scenario_tree_def)

section \<open>The breadth-first search returns the subtree\<close>

lemma rtrancl_Image_step: "E\<^sup>* `` S = S \<union> E\<^sup>* `` (E `` S)"
proof
  show "E\<^sup>* `` S \<subseteq> S \<union> E\<^sup>* `` (E `` S)"
  proof
    fix y assume "y \<in> E\<^sup>* `` S"
    then obtain x where x: "x \<in> S" "(x, y) \<in> E\<^sup>*" by auto
    from x(2) show "y \<in> S \<union> E\<^sup>* `` (E `` S)"
    proof (cases rule: converse_rtranclE)
      case base
      with x(1) show ?thesis by simp
    next
      case (step z)
      with x(1) show ?thesis by auto
    qed
  qed
next
  show "S \<union> E\<^sup>* `` (E `` S) \<subseteq> E\<^sup>* `` S"
    by (auto intro: converse_rtrancl_into_rtrancl)
qed

text \<open>
  Without a cycle the levels of the search run out: each level consists of children
  of the level before, and the edge relation of a finite acyclic table, lifted to
  finite sets, is well-founded.
\<close>

lemma bfs_loop_returns:
  assumes acyc: "acyclic (edges ct)"
  shows "\<exists>out. bfs_loop ct tp res = Some out \<and> set out = set res \<union> (edges ct)\<^sup>* `` set tp"
proof -
  have "finite (edges ct)" by (simp add: edges_def)
  from finite_acyclic_wf_converse [OF this acyc]
  have wf: "wf (max_ext ((edges ct)\<inverse>))" by (rule max_ext_wf)
  have "\<forall>tp res. set tp = A \<longrightarrow>
          (\<exists>out. bfs_loop ct tp res = Some out \<and> set out = set res \<union> (edges ct)\<^sup>* `` set tp)"
    for A
  proof (induction A rule: wf_induct_rule [OF wf])
    case (1 A)
    show ?case
    proof (intro allI impI)
      fix tp res assume A: "set tp = A"
      show "\<exists>out. bfs_loop ct tp res = Some out \<and>
                  set out = set res \<union> (edges ct)\<^sup>* `` set tp"
      proof (cases "tp = []")
        case True
        then show ?thesis by (simp add: bfs_loop.simps)
      next
        case False
        let ?next = "map child (filter (\<lambda>r. parent r \<in> set tp) ct)"
        have "(set ?next, A) \<in> max_ext ((edges ct)\<inverse>)"
        proof (rule max_extI)
          show "finite (set ?next)" by simp
          show "finite A" using A by auto
          show "A \<noteq> {}" using A False by auto
          fix x assume "x \<in> set ?next"
          then have "x \<in> edges ct `` set tp" by (simp only: edges_Image)
          with A show "\<exists>y\<in>A. (x, y) \<in> (edges ct)\<inverse>" by auto
        qed
        from "1.IH" [OF this] obtain out where out:
          "bfs_loop ct ?next (res @ tp) = Some out"
          "set out = set (res @ tp) \<union> (edges ct)\<^sup>* `` set ?next" by blast
        have "bfs_loop ct tp res = Some out"
          using False out(1) by (subst bfs_loop.simps) simp
        moreover have "set out = set res \<union> (edges ct)\<^sup>* `` set tp"
          using out(2) rtrancl_Image_step [of "edges ct" "set tp"] edges_Image [of "set tp" ct]
          by auto
        ultimately show ?thesis by blast
      qed
    qed
  qed
  then show ?thesis by blast
qed

lemma bfs_from_cluster_tree_returns:
  assumes "acyclic (edges ct)"
  shows "\<exists>out. bfs_from_cluster_tree ct n = Some out \<and> set out = insert n {d. is_ancestor ct n d}"
proof -
  from bfs_loop_returns [OF assms, of "[n]" "[]"]
  obtain out where "bfs_loop ct [n] [] = Some out" "set out = (edges ct)\<^sup>* `` {n}" by auto
  moreover have "(edges ct)\<^sup>* `` {n} = insert n {d. is_ancestor ct n d}"
    by (auto simp: is_ancestor_def rtrancl_eq_or_trancl)
  ultimately show ?thesis by (simp add: bfs_from_cluster_tree_def)
qed

section \<open>The selection loop\<close>

lemma mark_subtree_apply:
  "mark_subtree node subs isc x = (if x \<in> set subs \<and> x \<noteq> node then Some False else isc x)"
  unfolding mark_subtree_def by (induction subs arbitrary: isc) auto

lemma sum_stability_total: "set cs \<subseteq> dom st \<Longrightarrow> \<exists>v. sum_stability st cs = Inr v"
  by (induction cs) auto

text \<open>The value the sum has: the scores of the listed clusters, added up.\<close>

lemma sum_stability_value:
  "sum_stability st cs = Inr v \<Longrightarrow>
   set cs \<subseteq> dom st \<and> v = sum_list (map (\<lambda>c. the (st c)) cs)"
proof (induction cs arbitrary: v)
  case Nil
  then show ?case by simp
next
  case (Cons c cs)
  from Cons.prems obtain a where a: "st c = Some a"
    by (cases "st c") simp_all
  from Cons.prems a obtain w where w: "sum_stability st cs = Inr w"
    by (cases "sum_stability st cs") simp_all
  from Cons.prems a w have "v = a + w" by simp
  with Cons.IH [OF w] a show ?case by auto
qed

lemma children_of_subset: "set (children_of ct n) \<subseteq> set (map child ct)"
  by (auto simp: children_of_def)

text \<open>What one pass of the loop body does, when the scores it reads are there.\<close>

lemma select_step_returns:
  assumes acyc: "acyclic (edges ct)"
      and node: "node \<in> dom (stability s)"
      and kids: "set (map child ct) \<subseteq> dom (stability s)"
  shows "\<exists>ss sn s'.
           sum_stability (stability s) (children_of ct node) = Inr ss \<and>
           stability s node = Some sn \<and>
           select_step ct node s = Some (Inr s') \<and>
           dom (stability s') = dom (stability s) \<and>
           (if ss > sn
            then is_cluster s' = (is_cluster s)(node \<mapsto> False) \<and>
                 stability s' = (stability s)(node \<mapsto> ss)
            else stability s' = stability s \<and>
                 (\<forall>x. is_cluster s' x =
                        (if is_ancestor ct node x then Some False else is_cluster s x)))"
proof -
  from kids children_of_subset [of ct node]
  have "set (children_of ct node) \<subseteq> dom (stability s)" by blast
  from sum_stability_total [OF this]
  obtain ss where ss: "sum_stability (stability s) (children_of ct node) = Inr ss" by blast
  from node obtain sn where sn: "stability s node = Some sn" by auto
  from bfs_from_cluster_tree_returns [OF acyc, of node]
  obtain subs where subs: "bfs_from_cluster_tree ct node = Some subs"
    "set subs = insert node {d. is_ancestor ct node d}" by blast
  have nn: "\<not> is_ancestor ct node node"
    by (rule not_own_ancestor [OF acyc])
  show ?thesis
  proof (cases "ss > sn")
    case True
    then show ?thesis
      using ss sn node by (auto simp: select_step_def)
  next
    case False
    have "\<forall>x. mark_subtree node subs (is_cluster s) x =
               (if is_ancestor ct node x then Some False else is_cluster s x)"
      using subs(2) nn by (auto simp: mark_subtree_apply)
    then show ?thesis
      using False ss sn subs(1) by (simp add: select_step_def)
  qed
qed

lemma select_step_InrE:
  assumes "select_step ct node s = Some (Inr s')"
  obtains ss sn where
    "sum_stability (stability s) (children_of ct node) = Inr ss"
    "stability s node = Some sn"
    "ss > sn \<Longrightarrow> s' = s\<lparr>is_cluster := (is_cluster s)(node \<mapsto> False),
                            stability := (stability s)(node \<mapsto> ss)\<rparr>"
    "\<not> ss > sn \<Longrightarrow> \<exists>subs. bfs_from_cluster_tree ct node = Some subs \<and>
                      s' = s\<lparr>is_cluster := mark_subtree node subs (is_cluster s)\<rparr>"
proof -
  obtain ss where ss: "sum_stability (stability s) (children_of ct node) = Inr ss"
    using assms
    by (cases "sum_stability (stability s) (children_of ct node)")
       (simp_all add: select_step_def)
  obtain sn where sn: "stability s node = Some sn"
    using assms ss by (cases "stability s node") (simp_all add: select_step_def)
  have a: "ss > sn \<Longrightarrow> s' = s\<lparr>is_cluster := (is_cluster s)(node \<mapsto> False),
                            stability := (stability s)(node \<mapsto> ss)\<rparr>"
    using assms ss sn by (simp add: select_step_def)
  have b: "\<not> ss > sn \<Longrightarrow> \<exists>subs. bfs_from_cluster_tree ct node = Some subs \<and>
                      s' = s\<lparr>is_cluster := mark_subtree node subs (is_cluster s)\<rparr>"
    using assms ss sn
    by (cases "bfs_from_cluster_tree ct node") (simp_all add: select_step_def)
  from ss sn a b that show thesis by blast
qed

lemma select_step_mono:
  assumes step: "select_step ct node s = Some (Inr s')" and x: "is_cluster s' x = Some True"
  shows "is_cluster s x = Some True"
proof -
  from step obtain ss sn where
    a: "ss > sn \<Longrightarrow> s' = s\<lparr>is_cluster := (is_cluster s)(node \<mapsto> False),
                            stability := (stability s)(node \<mapsto> ss)\<rparr>" and
    b: "\<not> ss > sn \<Longrightarrow> \<exists>subs. bfs_from_cluster_tree ct node = Some subs \<and>
                      s' = s\<lparr>is_cluster := mark_subtree node subs (is_cluster s)\<rparr>"
    by (rule select_step_InrE) blast
  show ?thesis
  proof (cases "ss > sn")
    case True
    from a [OF True] x show ?thesis by (simp split: if_splits)
  next
    case False
    from b [OF False] obtain subs where
      "s' = s\<lparr>is_cluster := mark_subtree node subs (is_cluster s)\<rparr>" by blast
    with x show ?thesis by (simp add: mark_subtree_apply split: if_splits)
  qed
qed

lemma select_step_stability_frame:
  assumes step: "select_step ct node s = Some (Inr s')" and x: "x \<noteq> node"
  shows "stability s' x = stability s x"
proof -
  from step obtain ss sn where
    a: "ss > sn \<Longrightarrow> s' = s\<lparr>is_cluster := (is_cluster s)(node \<mapsto> False),
                            stability := (stability s)(node \<mapsto> ss)\<rparr>" and
    b: "\<not> ss > sn \<Longrightarrow> \<exists>subs. bfs_from_cluster_tree ct node = Some subs \<and>
                      s' = s\<lparr>is_cluster := mark_subtree node subs (is_cluster s)\<rparr>"
    by (rule select_step_InrE) blast
  show ?thesis
  proof (cases "ss > sn")
    case True
    from a [OF True] x show ?thesis by simp
  next
    case False
    from b [OF False] show ?thesis by auto
  qed
qed

lemma select_loop_append:
  "select_loop ct (xs @ ys) s =
     (case select_loop ct xs s of
        None \<Rightarrow> None
      | Some (Inl e) \<Rightarrow> Some (Inl e)
      | Some (Inr s1) \<Rightarrow> select_loop ct ys s1)"
  by (induction xs arbitrary: s) (auto split: option.splits sum.splits)

lemma select_loop_returns:
  assumes acyc: "acyclic (edges ct)"
  shows "set nodes \<subseteq> dom (stability s) \<Longrightarrow> set (map child ct) \<subseteq> dom (stability s) \<Longrightarrow>
         \<exists>s'. select_loop ct nodes s = Some (Inr s') \<and> dom (stability s') = dom (stability s)"
proof (induction nodes arbitrary: s)
  case Nil
  then show ?case by simp
next
  case (Cons n nodes)
  from Cons.prems have n: "n \<in> dom (stability s)" by simp
  from select_step_returns [OF acyc n Cons.prems(2)]
  obtain s1 where s1: "select_step ct n s = Some (Inr s1)"
    "dom (stability s1) = dom (stability s)" by blast
  from Cons.prems s1(2) have "set nodes \<subseteq> dom (stability s1)"
    "set (map child ct) \<subseteq> dom (stability s1)" by auto
  from Cons.IH [OF this] s1 show ?case by auto
qed

lemma select_loop_mono:
  "select_loop ct nodes s = Some (Inr s') \<Longrightarrow> is_cluster s' x = Some True \<Longrightarrow>
   is_cluster s x = Some True"
proof (induction nodes arbitrary: s)
  case Nil
  then show ?case by simp
next
  case (Cons n nodes)
  from Cons.prems(1) obtain s1 where s1: "select_step ct n s = Some (Inr s1)"
    "select_loop ct nodes s1 = Some (Inr s')"
    by (auto split: option.splits sum.splits)
  from Cons.IH [OF s1(2) Cons.prems(2)] have "is_cluster s1 x = Some True" .
  with s1(1) show ?case by (rule select_step_mono)
qed

lemma select_loop_stability_frame:
  "select_loop ct nodes s = Some (Inr s') \<Longrightarrow> x \<notin> set nodes \<Longrightarrow>
   stability s' x = stability s x"
proof (induction nodes arbitrary: s)
  case Nil
  then show ?case by simp
next
  case (Cons n nodes)
  from Cons.prems(1) obtain s1 where s1: "select_step ct n s = Some (Inr s1)"
    "select_loop ct nodes s1 = Some (Inr s')"
    by (auto split: option.splits sum.splits)
  from Cons.prems(2) have "x \<noteq> n" "x \<notin> set nodes" by auto
  with Cons.IH [OF s1(2)] select_step_stability_frame [OF s1(1)] show ?case by simp
qed

text \<open>A pass changes the marks only of its node or of the node's proper descendants.\<close>

lemma select_step_frame:
  assumes step: "select_step ct node s = Some (Inr s')"
      and x: "x \<noteq> node" "x \<notin> set (the (bfs_from_cluster_tree ct node))"
  shows "is_cluster s' x = is_cluster s x"
proof -
  from step obtain ss sn where
    a: "ss > sn \<Longrightarrow> s' = s\<lparr>is_cluster := (is_cluster s)(node \<mapsto> False),
                            stability := (stability s)(node \<mapsto> ss)\<rparr>" and
    b: "\<not> ss > sn \<Longrightarrow> \<exists>subs. bfs_from_cluster_tree ct node = Some subs \<and>
                      s' = s\<lparr>is_cluster := mark_subtree node subs (is_cluster s)\<rparr>"
    by (rule select_step_InrE) blast
  show ?thesis
  proof (cases "ss > sn")
    case True
    from a [OF True] x show ?thesis by simp
  next
    case False
    from b [OF False] obtain subs where subs: "bfs_from_cluster_tree ct node = Some subs"
      "s' = s\<lparr>is_cluster := mark_subtree node subs (is_cluster s)\<rparr>" by blast
    with x show ?thesis by (simp add: mark_subtree_apply)
  qed
qed

lemma select_loop_frame:
  assumes acyc: "acyclic (edges ct)"
  shows "select_loop ct nodes s = Some (Inr s') \<Longrightarrow> x \<notin> set nodes \<Longrightarrow>
         \<forall>m\<in>set nodes. \<not> is_ancestor ct m x \<Longrightarrow> is_cluster s' x = is_cluster s x"
proof (induction nodes arbitrary: s)
  case Nil
  then show ?case by simp
next
  case (Cons n nodes)
  from Cons.prems(1) obtain s1 where s1: "select_step ct n s = Some (Inr s1)"
    "select_loop ct nodes s1 = Some (Inr s')"
    by (auto split: option.splits sum.splits)
  from Cons.prems(2) have xn: "x \<noteq> n" and xns: "x \<notin> set nodes" by simp_all
  from Cons.prems(3) have an: "\<not> is_ancestor ct n x"
    and ans: "\<forall>m\<in>set nodes. \<not> is_ancestor ct m x" by simp_all
  from bfs_from_cluster_tree_returns [OF acyc, of n]
  obtain out where out: "bfs_from_cluster_tree ct n = Some out"
    "set out = insert n {d. is_ancestor ct n d}" by blast
  from out xn an have "x \<notin> set (the (bfs_from_cluster_tree ct n))" by simp
  from select_step_frame [OF s1(1) xn this]
  have "is_cluster s1 x = is_cluster s x" .
  moreover from Cons.IH [OF s1(2) xns ans] have "is_cluster s' x = is_cluster s1 x" .
  ultimately show ?case by simp
qed

text \<open>A node that keeps its mark through its own pass has taken the else branch.\<close>

lemma select_step_keeps:
  assumes acyc: "acyclic (edges ct)"
      and step: "select_step ct node s = Some (Inr s')"
      and kept: "is_cluster s' node = Some True"
      and d: "is_ancestor ct node d"
  shows "is_cluster s' d = Some False"
proof -
  from bfs_from_cluster_tree_returns [OF acyc, of node]
  obtain out where out: "bfs_from_cluster_tree ct node = Some out"
    "set out = insert node {d. is_ancestor ct node d}" by blast
  have dn: "d \<noteq> node" using not_own_ancestor [OF acyc, of node] d by auto
  from step obtain ss sn where
    a: "ss > sn \<Longrightarrow> s' = s\<lparr>is_cluster := (is_cluster s)(node \<mapsto> False),
                            stability := (stability s)(node \<mapsto> ss)\<rparr>" and
    b: "\<not> ss > sn \<Longrightarrow> \<exists>subs. bfs_from_cluster_tree ct node = Some subs \<and>
                      s' = s\<lparr>is_cluster := mark_subtree node subs (is_cluster s)\<rparr>"
    by (rule select_step_InrE) blast
  show ?thesis
  proof (cases "ss > sn")
    case True
    from a [OF True] kept show ?thesis by simp
  next
    case False
    from b [OF False] out(1)
    have "s' = s\<lparr>is_cluster := mark_subtree node out (is_cluster s)\<rparr>" by auto
    with out(2) d dn show ?thesis by (simp add: mark_subtree_apply)
  qed
qed

lemma select_loop_absorbs:
  assumes acyc: "acyclic (edges ct)"
  shows "select_loop ct nodes s = Some (Inr s') \<Longrightarrow> n \<in> set nodes \<Longrightarrow>
         is_cluster s' n = Some True \<Longrightarrow> is_ancestor ct n d \<Longrightarrow>
         is_cluster s' d \<noteq> Some True"
proof (induction nodes arbitrary: s)
  case Nil
  then show ?case by simp
next
  case (Cons m nodes)
  from Cons.prems(1) obtain s1 where s1: "select_step ct m s = Some (Inr s1)"
    "select_loop ct nodes s1 = Some (Inr s')"
    by (auto split: option.splits sum.splits)
  show ?case
  proof (cases "n \<in> set nodes")
    case True
    from Cons.IH [OF s1(2) True Cons.prems(3,4)] show ?thesis .
  next
    case False
    with Cons.prems(2) have "n = m" by simp
    from select_loop_mono [OF s1(2) Cons.prems(3)] have "is_cluster s1 n = Some True" .
    with select_step_keeps [OF acyc s1(1) _ Cons.prems(4) [unfolded \<open>n = m\<close>]] \<open>n = m\<close>
    have "is_cluster s1 d = Some False" by simp
    then show ?thesis
      using select_loop_mono [OF s1(2), of d] by auto
  qed
qed

section \<open>The node list\<close>

lemma root_id_le_parent: "r \<in> set t \<Longrightarrow> root_id t \<le> parent r"
  unfolding root_id_def by (rule Min_le) auto

lemma cluster_tree_subset: "set (cluster_tree t) \<subseteq> set t"
  by (auto simp: cluster_tree_def)

lemma node_list_descending: "sorted_wrt (\<lambda>a b. a > b) (node_list stab)"
proof -
  let ?xs = "sort (remdups (map fst stab))"
  have "sorted_wrt (<) ?xs"
    by (simp add: strict_sorted_iff)
  then have "sorted_wrt (\<lambda>a b. a > b) (rev ?xs)"
    by (simp add: sorted_wrt_rev)
  then have "sorted_wrt (\<lambda>a b. a > b) (take (length (rev ?xs) - 1) (rev ?xs))"
    by (rule sorted_wrt_take)
  then show ?thesis
    by (simp add: node_list_def butlast_conv_take)
qed

lemma node_list_distinct: "distinct (node_list stab)"
  by (simp add: node_list_def distinct_tl)

lemma node_list_subset: "set (node_list stab) \<subseteq> set (map fst stab)"
proof
  fix x assume "x \<in> set (node_list stab)"
  then have "x \<in> set (rev (sort (remdups (map fst stab))))"
    unfolding node_list_def by (rule in_set_butlastD)
  then show "x \<in> set (map fst stab)" by simp
qed

lemma node_list_split:
  assumes "node_list stab = pre @ n # post"
  shows "\<forall>m\<in>set pre. n < m" and "\<forall>m\<in>set post. m < n"
    and "n \<notin> set pre" and "n \<notin> set post"
proof -
  from node_list_descending [of stab] assms
  have "sorted_wrt (\<lambda>a b. a > b) (pre @ n # post)" by simp
  then show "\<forall>m\<in>set pre. n < m" and "\<forall>m\<in>set post. m < n"
    by (auto simp: sorted_wrt_append)
  then show "n \<notin> set pre" and "n \<notin> set post" by auto
qed

lemma initial_is_cluster:
  "is_cluster (initial_selection stab) x =
     (if x \<in> set (node_list stab) then Some True else None)"
  by (simp add: initial_selection_def map_of_map_restrict restrict_map_def)

lemma initial_stability_dom:
  "dom (stability (initial_selection stab)) = set (map fst stab)"
  by (simp add: initial_selection_def dom_map_of_conv_image_fst)

lemma select_loop_from_initial:
  assumes acyc: "acyclic (edges (cluster_tree t))" and cov: "stability_covers t stab"
      and sub: "set nodes \<subseteq> set (node_list stab)"
  shows "\<exists>s'. select_loop (cluster_tree t) nodes (initial_selection stab) = Some (Inr s') \<and>
              dom (stability s') = set (map fst stab)"
proof -
  have kids: "set (map child (cluster_tree t)) \<subseteq> dom (stability (initial_selection stab))"
    using cov by (simp add: initial_stability_dom stability_covers_def)
  from sub node_list_subset [of stab]
  have "set nodes \<subseteq> dom (stability (initial_selection stab))"
    by (simp add: initial_stability_dom)
  from select_loop_returns [OF acyc this kids]
  show ?thesis by (simp add: initial_stability_dom)
qed

lemma select_clusters_result:
  assumes acyc: "acyclic (edges (cluster_tree t))" and cov: "stability_covers t stab"
  shows "\<exists>s. select_loop (cluster_tree t) (node_list stab) (initial_selection stab) = Some (Inr s) \<and>
             select_clusters t stab =
               Some (Inr (filter (\<lambda>c. is_cluster s c = Some True) (node_list stab)))"
proof -
  from select_loop_from_initial [OF acyc cov subset_refl]
  obtain s where "select_loop (cluster_tree t) (node_list stab) (initial_selection stab) = Some (Inr s)"
    by blast
  then show ?thesis by (simp add: select_clusters_def)
qed

lemma select_clusters_InrE:
  assumes "select_clusters t stab = Some (Inr res)"
  obtains s where
    "select_loop (cluster_tree t) (node_list stab) (initial_selection stab) = Some (Inr s)"
    "res = filter (\<lambda>c. is_cluster s c = Some True) (node_list stab)"
proof -
  let ?run = "select_loop (cluster_tree t) (node_list stab) (initial_selection stab)"
  from assms obtain o1 where o1: "?run = Some o1"
    by (cases ?run) (simp_all add: select_clusters_def)
  from assms o1 obtain s where s: "o1 = Inr s"
    by (cases o1) (simp_all add: select_clusters_def)
  from assms o1 s have "res = filter (\<lambda>c. is_cluster s c = Some True) (node_list stab)"
    by (simp add: select_clusters_def)
  with o1 s that show thesis by simp
qed

section \<open>The selected set\<close>

lemma stability_covers_scenario: "stability_covers scenario_tree scenario_stability"
  by (simp add: stability_covers_def scenario_tree_def scenario_stability_def cluster_tree_def)

lemma stability_covers_deep: "stability_covers deep_tree deep_stability"
  by (simp add: stability_covers_def deep_tree_def deep_stability_def cluster_tree_def)

lemma select_clusters_scenario:
  "select_clusters scenario_tree scenario_stability = Some (Inr [4, 3, 2])"
  by (simp add: select_eval scenario_tree_def scenario_stability_def)

lemma select_clusters_deep:
  "select_clusters deep_tree deep_stability = Some (Inr [2, 1])"
  by (simp add: select_eval deep_tree_def deep_stability_def)

lemma edges_scenario:
  "edges (cluster_tree scenario_tree) = {(0, 1), (0, 2), (1, 3), (1, 4)}"
  by (simp add: edges_def scenario_tree_def cluster_tree_def)

text \<open>
  C2: on a well-formed tree, for every stability map, whatever \<open>_select_clusters\<close>
  returns is an antichain of the cluster tree: no returned cluster is a proper
  ancestor of another returned cluster. It does return when the map has a score for
  every cluster other than the root.
\<close>

theorem select_clusters_antichain:
  assumes wf: "well_formed t"
  shows "(\<forall>res. select_clusters t stab = Some (Inr res) \<longrightarrow>
            (\<forall>a\<in>set res. \<forall>b\<in>set res. \<not> is_ancestor (cluster_tree t) a b)) \<and>
         (stability_covers t stab \<longrightarrow> (\<exists>res. select_clusters t stab = Some (Inr res)))"
proof (intro conjI allI impI ballI)
  assume "stability_covers t stab"
  from select_clusters_result [OF well_formed_acyclic [OF wf] this]
  show "\<exists>res. select_clusters t stab = Some (Inr res)" by blast
next
  fix res a b
  assume run: "select_clusters t stab = Some (Inr res)"
    and a: "a \<in> set res" and b: "b \<in> set res"
  from run obtain s where s:
    "select_loop (cluster_tree t) (node_list stab) (initial_selection stab) = Some (Inr s)"
    "res = filter (\<lambda>c. is_cluster s c = Some True) (node_list stab)"
    by (rule select_clusters_InrE)
  show "\<not> is_ancestor (cluster_tree t) a b"
  proof
    assume anc: "is_ancestor (cluster_tree t) a b"
    from a s(2) have "a \<in> set (node_list stab)" "is_cluster s a = Some True" by simp_all
    from select_loop_absorbs [OF well_formed_acyclic [OF wf] s(1) this anc]
    have "is_cluster s b \<noteq> Some True" .
    with b s(2) show False by simp
  qed
qed

theorem select_clusters_antichain_witness:
  "stability_covers scenario_tree scenario_stability \<and>
   select_clusters scenario_tree scenario_stability = Some (Inr [4, 3, 2]) \<and>
   \<not> is_ancestor (cluster_tree scenario_tree) 4 3 \<and>
   \<not> is_ancestor (cluster_tree scenario_tree) 3 4 \<and>
   \<not> is_ancestor (cluster_tree scenario_tree) 4 2 \<and>
   \<not> is_ancestor (cluster_tree scenario_tree) 2 4 \<and>
   \<not> is_ancestor (cluster_tree scenario_tree) 3 2 \<and>
   \<not> is_ancestor (cluster_tree scenario_tree) 2 3"
  using select_clusters_antichain [OF well_formed_scenario_tree, of scenario_stability]
    select_clusters_scenario stability_covers_scenario
  by simp

section \<open>One pass of the selection loop\<close>

lemma id_ordered_rows: "id_ordered t \<Longrightarrow> \<forall>r\<in>set (cluster_tree t). parent r < child r"
  by (simp add: id_ordered_def)

text \<open>
  The state in which a node of the list is reached, and what its pass does, when the
  ids are ordered: the node is still marked, because the passes before it were passes
  of larger ids, none of them an ancestor.
\<close>

lemma select_pass:
  assumes ord: "id_ordered t" and cov: "stability_covers t stab"
      and split: "node_list stab = pre @ n # post"
  shows "\<exists>s1 sn s2 sf.
           select_loop (cluster_tree t) pre (initial_selection stab) = Some (Inr s1) \<and>
           is_cluster s1 n = Some True \<and>
           set (children_of (cluster_tree t) n) \<subseteq> dom (stability s1) \<and>
           stability s1 n = Some sn \<and>
           select_step (cluster_tree t) n s1 = Some (Inr s2) \<and>
           (if sum_list (map (\<lambda>c. the (stability s1 c)) (children_of (cluster_tree t) n)) > sn
            then is_cluster s2 = (is_cluster s1)(n \<mapsto> False) \<and>
                 stability s2 = (stability s1)(n \<mapsto>
                   sum_list (map (\<lambda>c. the (stability s1 c)) (children_of (cluster_tree t) n)))
            else stability s2 = stability s1 \<and>
                 (\<forall>x. is_cluster s2 x =
                    (if is_ancestor (cluster_tree t) n x then Some False else is_cluster s1 x))) \<and>
           select_loop (cluster_tree t) post s2 = Some (Inr sf) \<and>
           select_clusters t stab =
             Some (Inr (filter (\<lambda>c. is_cluster sf c = Some True) (node_list stab)))"
proof -
  let ?ct = "cluster_tree t"
  let ?s0 = "initial_selection stab"
  note rows = id_ordered_rows [OF ord]
  note acyc = id_ordered_acyclic [OF ord]
  from split have pre_sub: "set pre \<subseteq> set (node_list stab)" by auto
  from select_loop_from_initial [OF acyc cov pre_sub]
  obtain s1 where s1: "select_loop ?ct pre ?s0 = Some (Inr s1)"
    and dom1: "dom (stability s1) = set (map fst stab)" by blast
  have kids1: "set (map child ?ct) \<subseteq> dom (stability s1)"
    using cov dom1 by (simp add: stability_covers_def)
  have n_in: "n \<in> set (node_list stab)" using split by simp
  have not_anc: "\<forall>m\<in>set pre. \<not> is_ancestor ?ct m n"
  proof
    fix m assume "m \<in> set pre"
    with node_list_split(1) [OF split] have "n < m" by blast
    then show "\<not> is_ancestor ?ct m n" using ancestor_less [OF rows, of m n] by auto
  qed
  from select_loop_frame [OF acyc s1 node_list_split(3) [OF split] not_anc]
  have marked: "is_cluster s1 n = Some True"
    using n_in by (simp add: initial_is_cluster)
  have "n \<in> dom (stability s1)" using dom1 node_list_subset [of stab] n_in by auto
  with kids1 obtain ss sn s2 where step:
    "sum_stability (stability s1) (children_of ?ct n) = Inr ss"
    "stability s1 n = Some sn"
    "select_step ?ct n s1 = Some (Inr s2)"
    "if ss > sn
     then is_cluster s2 = (is_cluster s1)(n \<mapsto> False) \<and>
          stability s2 = (stability s1)(n \<mapsto> ss)
     else stability s2 = stability s1 \<and>
          (\<forall>x. is_cluster s2 x =
             (if is_ancestor ?ct n x then Some False else is_cluster s1 x))"
    using select_step_returns [OF acyc, of n s1] by blast
  from sum_stability_value [OF step(1)]
  have kids: "set (children_of ?ct n) \<subseteq> dom (stability s1)"
    and ss: "ss = sum_list (map (\<lambda>c. the (stability s1 c)) (children_of ?ct n))" by simp_all
  from select_clusters_result [OF acyc cov]
  obtain sf where sf: "select_loop ?ct (node_list stab) ?s0 = Some (Inr sf)"
    "select_clusters t stab =
       Some (Inr (filter (\<lambda>c. is_cluster sf c = Some True) (node_list stab)))" by blast
  from sf(1) s1 step(3) have "select_loop ?ct post s2 = Some (Inr sf)"
    by (simp add: split select_loop_append)
  with s1 marked kids step(2,3) step(4) [unfolded ss] sf(2) show ?thesis by blast
qed

section \<open>Kept and absorbed nodes\<close>

text \<open>
  A marked node either keeps its mark through the later passes or is unmarked by the
  pass of a proper ancestor that keeps its own mark to the end.
\<close>

lemma select_loop_kept_or_absorbed:
  assumes ord: "\<forall>r\<in>set ct. parent r < child r"
  shows "select_loop ct nodes s = Some (Inr s') \<Longrightarrow> sorted_wrt (\<lambda>a b. a > b) nodes \<Longrightarrow>
         \<forall>m\<in>set nodes. is_cluster s m = Some True \<Longrightarrow> is_cluster s x = Some True \<Longrightarrow>
         \<forall>m\<in>set nodes. m < x \<Longrightarrow>
         is_cluster s' x = Some True \<or>
         (\<exists>a\<in>set nodes. is_ancestor ct a x \<and> is_cluster s' a = Some True)"
proof (induction nodes arbitrary: s x)
  case Nil
  then show ?case by simp
next
  case (Cons m nodes)
  from Cons.prems(1) obtain s1 where s1: "select_step ct m s = Some (Inr s1)"
    "select_loop ct nodes s1 = Some (Inr s')"
    by (auto split: option.splits sum.splits)
  from Cons.prems(2) have below: "\<forall>y\<in>set nodes. y < m" and srt: "sorted_wrt (\<lambda>a b. a > b) nodes"
    by simp_all
  have acyc: "acyclic (edges ct)"
    by (rule ranked_acyclic [where rank = uminus]) (use ord in simp)
  from bfs_from_cluster_tree_returns [OF acyc, of m]
  obtain out where out: "bfs_from_cluster_tree ct m = Some out"
    "set out = insert m {d. is_ancestor ct m d}" by blast
  have unchanged: "is_cluster s1 y = is_cluster s y" if "y < m" for y
  proof -
    have "y \<noteq> m" using that by simp
    moreover have "y \<notin> set (the (bfs_from_cluster_tree ct m))"
      using out that ancestor_less [OF ord, of m y] by auto
    ultimately show ?thesis by (rule select_step_frame [OF s1(1)])
  qed
  have marked1: "\<forall>y\<in>set nodes. is_cluster s1 y = Some True"
    using below unchanged Cons.prems(3) by simp
  from Cons.prems(5) have mx: "m < x" and belowx: "\<forall>y\<in>set nodes. y < x" by simp_all
  show ?case
  proof (cases "is_cluster s1 x = Some True")
    case True
    from Cons.IH [OF s1(2) srt marked1 True belowx] show ?thesis by auto
  next
    case False
    from s1(1) obtain ss sn where
      a: "ss > sn \<Longrightarrow> s1 = s\<lparr>is_cluster := (is_cluster s)(m \<mapsto> False),
                              stability := (stability s)(m \<mapsto> ss)\<rparr>" and
      b: "\<not> ss > sn \<Longrightarrow> \<exists>subs. bfs_from_cluster_tree ct m = Some subs \<and>
                        s1 = s\<lparr>is_cluster := mark_subtree m subs (is_cluster s)\<rparr>"
      by (rule select_step_InrE) blast
    have xm: "x \<noteq> m" using mx by simp
    have keep: "\<not> ss > sn"
    proof
      assume "ss > sn"
      from a [OF this] xm Cons.prems(4) have "is_cluster s1 x = Some True" by simp
      with False show False by simp
    qed
    from b [OF keep] out(1)
    have s1_eq: "s1 = s\<lparr>is_cluster := mark_subtree m out (is_cluster s)\<rparr>" by auto
    have anc_mx: "is_ancestor ct m x"
    proof (rule ccontr)
      assume "\<not> is_ancestor ct m x"
      with s1_eq out(2) xm Cons.prems(4) have "is_cluster s1 x = Some True"
        by (simp add: mark_subtree_apply)
      with False show False by simp
    qed
    from s1_eq Cons.prems(3) have m1: "is_cluster s1 m = Some True"
      by (simp add: mark_subtree_apply)
    from Cons.IH [OF s1(2) srt marked1 m1 below]
    consider "is_cluster s' m = Some True"
      | a where "a \<in> set nodes" "is_ancestor ct a m" "is_cluster s' a = Some True"
      by blast
    then show ?thesis
    proof cases
      case 1
      with anc_mx show ?thesis by auto
    next
      case 2
      from is_ancestor_trans [OF 2(2) anc_mx] 2(1,3) show ?thesis by auto
    qed
  qed
qed

text \<open>
  A node that does not lose against its children keeps its mark and its score in its
  own pass; its proper descendants are out for good, and the node itself is returned
  exactly when no proper ancestor is.
\<close>

lemma kept_node:
  assumes ord: "id_ordered t" and cov: "stability_covers t stab"
      and split: "node_list stab = pre @ n # post"
      and reached: "select_loop (cluster_tree t) pre (initial_selection stab) = Some (Inr s1)"
      and score: "stability s1 n = Some sn"
      and keep: "\<not> sum_list (map (\<lambda>c. the (stability s1 c)) (children_of (cluster_tree t) n)) > sn"
  shows "\<exists>s2 res.
           select_step (cluster_tree t) n s1 = Some (Inr s2) \<and>
           is_cluster s2 n = Some True \<and> stability s2 n = Some sn \<and>
           select_clusters t stab = Some (Inr res) \<and>
           (\<forall>d. is_ancestor (cluster_tree t) n d \<longrightarrow>
              is_cluster s2 d = Some False \<and> d \<notin> set res) \<and>
           (n \<in> set res \<longleftrightarrow> \<not> (\<exists>a\<in>set res. is_ancestor (cluster_tree t) a n))"
proof -
  let ?ct = "cluster_tree t"
  let ?s0 = "initial_selection stab"
  note rows = id_ordered_rows [OF ord]
  note acyc = id_ordered_acyclic [OF ord]
  from select_pass [OF ord cov split] reached score keep
  obtain s2 sf where p:
    "is_cluster s1 n = Some True"
    "select_step ?ct n s1 = Some (Inr s2)"
    "stability s2 = stability s1"
    "\<forall>x. is_cluster s2 x = (if is_ancestor ?ct n x then Some False else is_cluster s1 x)"
    "select_loop ?ct post s2 = Some (Inr sf)"
    "select_clusters t stab =
       Some (Inr (filter (\<lambda>c. is_cluster sf c = Some True) (node_list stab)))"
    by auto
  let ?res = "filter (\<lambda>c. is_cluster sf c = Some True) (node_list stab)"
  have nn: "\<not> is_ancestor ?ct n n" by (rule not_own_ancestor [OF acyc])
  from p(4) nn p(1) have kept: "is_cluster s2 n = Some True" by simp
  from p(3) score have score2: "stability s2 n = Some sn" by simp
  have desc: "is_cluster s2 d = Some False \<and> d \<notin> set ?res" if "is_ancestor ?ct n d" for d
  proof -
    from p(4) that have "is_cluster s2 d = Some False" by simp
    then show ?thesis using select_loop_mono [OF p(5), of d] by auto
  qed
  have whole: "select_loop ?ct (node_list stab) ?s0 = Some (Inr sf)"
    using reached p(2,5) by (simp add: split select_loop_append)
  have n_in: "n \<in> set (node_list stab)" using split by simp
  have "n \<in> set ?res \<longleftrightarrow> \<not> (\<exists>a\<in>set ?res. is_ancestor ?ct a n)"
  proof
    assume n_res: "n \<in> set ?res"
    show "\<not> (\<exists>a\<in>set ?res. is_ancestor ?ct a n)"
    proof
      assume "\<exists>a\<in>set ?res. is_ancestor ?ct a n"
      then obtain a where a: "a \<in> set (node_list stab)" "is_cluster sf a = Some True"
        "is_ancestor ?ct a n" by auto
      from select_loop_absorbs [OF acyc whole a] n_res show False by simp
    qed
  next
    assume no_anc: "\<not> (\<exists>a\<in>set ?res. is_ancestor ?ct a n)"
    have prefix: "select_loop ?ct (pre @ [n]) ?s0 = Some (Inr s2)"
      using reached p(2) by (simp add: select_loop_append)
    have marked: "\<forall>m\<in>set post. is_cluster s2 m = Some True"
    proof
      fix m assume m: "m \<in> set post"
      with node_list_split(2) [OF split] have mn: "m < n" by blast
      have "m \<notin> set (pre @ [n])"
        using mn node_list_split(1) [OF split] by auto
      moreover have "\<forall>k\<in>set (pre @ [n]). \<not> is_ancestor ?ct k m"
      proof
        fix k assume "k \<in> set (pre @ [n])"
        with node_list_split(1) [OF split] have "n \<le> k" by auto
        with mn show "\<not> is_ancestor ?ct k m" using ancestor_less [OF rows, of k m] by auto
      qed
      ultimately have "is_cluster s2 m = is_cluster ?s0 m"
        by (rule select_loop_frame [OF acyc prefix])
      moreover have "m \<in> set (node_list stab)" using m split by simp
      ultimately show "is_cluster s2 m = Some True" by (simp add: initial_is_cluster)
    qed
    have srt: "sorted_wrt (\<lambda>a b. a > b) post"
      using node_list_descending [of stab] by (simp add: split sorted_wrt_append)
    from select_loop_kept_or_absorbed [OF rows p(5) srt marked kept node_list_split(2) [OF split]]
    consider "is_cluster sf n = Some True"
      | a where "a \<in> set post" "is_ancestor ?ct a n" "is_cluster sf a = Some True"
      by blast
    then show "n \<in> set ?res"
    proof cases
      case 1
      with n_in show ?thesis by simp
    next
      case 2
      from 2(1) split have "a \<in> set (node_list stab)" by simp
      with 2(2,3) no_anc show ?thesis by auto
    qed
  qed
  with p(2,6) kept score2 desc show ?thesis by blast
qed

section \<open>The rule of a pass\<close>

lemma stability_covers_unordered: "stability_covers unordered_tree unordered_stability"
  by (simp add: stability_covers_def unordered_tree_def unordered_stability_def cluster_tree_def)

lemma stability_covers_unordered_tie: "stability_covers unordered_tree unordered_tie_stability"
  by (simp add: stability_covers_def unordered_tree_def unordered_tie_stability_def
                cluster_tree_def)

lemma stability_covers_deep_strict: "stability_covers deep_tree deep_strict_stability"
  by (simp add: stability_covers_def deep_tree_def deep_strict_stability_def cluster_tree_def)

lemma stability_covers_rewrite: "stability_covers deep_tree rewrite_stability"
  by (simp add: stability_covers_def deep_tree_def rewrite_stability_def cluster_tree_def)

lemma ancestor_unordered_5_1: "is_ancestor (cluster_tree unordered_tree) 5 1"
  unfolding is_ancestor_def
  by (rule r_into_trancl) (simp add: edges_def unordered_tree_def cluster_tree_def)

lemma select_clusters_unordered:
  "select_clusters unordered_tree unordered_stability = Some (Inr [6, 5])"
  by (simp add: select_eval unordered_tree_def unordered_stability_def)

lemma select_clusters_deep_strict:
  "select_clusters deep_tree deep_strict_stability = Some (Inr [2, 1])"
  by (simp add: select_eval deep_tree_def deep_strict_stability_def)

lemma select_clusters_rewrite:
  "select_clusters deep_tree rewrite_stability = Some (Inr [6, 5, 4, 2])"
  by (simp add: select_eval deep_tree_def rewrite_stability_def)

text \<open>
  C1, as stated, fails in two ways. On the tree with root 0, clusters 5 and 6 below
  it, 1 and 2 below 5, and 3 and 4 below 1, the nodes are evaluated in the order
  6, 5, 4, 3, 2, 1: the ancestor 5 of node 1 is evaluated (and keeps its mark, 3 + 1
  against 8) before the score of node 1 is overwritten with 5 + 5 = 10. And on the
  three-level tree cluster 3 beats its children (1 + 1 against 3), so it is on the
  "otherwise" side, yet it is not returned: cluster 1, evaluated later, absorbs it.
\<close>

theorem select_step_rule_counterexample:
  "well_formed unordered_tree \<and> stability_covers unordered_tree unordered_stability \<and>
   node_list unordered_stability = [6, 5, 4, 3, 2] @ 1 # [] \<and>
   is_ancestor (cluster_tree unordered_tree) 5 1 \<and>
   children_of (cluster_tree unordered_tree) 1 = [3, 4] \<and>
   map (map_of unordered_stability) [3, 4, 1] = [Some 5, Some 5, Some 3] \<and>
   select_clusters unordered_tree unordered_stability = Some (Inr [6, 5]) \<and>
   well_formed deep_tree \<and> stability_covers deep_tree deep_strict_stability \<and>
   children_of (cluster_tree deep_tree) 3 = [5, 6] \<and>
   map (map_of deep_strict_stability) [5, 6, 3] = [Some 1, Some 1, Some 3] \<and>
   select_clusters deep_tree deep_strict_stability = Some (Inr [2, 1])"
proof -
  have "node_list unordered_stability = [6, 5, 4, 3, 2] @ 1 # []"
    by (simp add: node_list_def unordered_stability_def)
  moreover have "children_of (cluster_tree unordered_tree) 1 = [3, 4]"
    by (simp add: unordered_tree_def cluster_tree_def children_of_def)
  moreover have "map (map_of unordered_stability) [3, 4, 1] = [Some 5, Some 5, Some 3]"
    by (simp add: unordered_stability_def)
  moreover have "children_of (cluster_tree deep_tree) 3 = [5, 6]"
    by (simp add: deep_tree_def cluster_tree_def children_of_def)
  moreover have "map (map_of deep_strict_stability) [5, 6, 3] = [Some 1, Some 1, Some 3]"
    by (simp add: deep_strict_stability_def)
  ultimately show ?thesis
    using well_formed_unordered_tree stability_covers_unordered ancestor_unordered_5_1
      select_clusters_unordered well_formed_deep_tree stability_covers_deep_strict
      select_clusters_deep_strict
    by simp
qed

text \<open>
  C1, amended: let the cluster children of the tree have larger ids than their
  parents, let the stability map have a score for every cluster other than the root,
  and let \<open>n\<close> be a node of the list, reached in state \<open>s1\<close> after the nodes
  \<open>pre\<close> of larger id. No proper ancestor of \<open>n\<close> has been evaluated yet. Let
  \<open>ss\<close> be the sum of the current scores of the direct cluster children of \<open>n\<close>.
  If \<open>ss\<close> exceeds the score of \<open>n\<close>, the pass unmarks \<open>n\<close> and overwrites its
  score with \<open>ss\<close>; \<open>n\<close> is not returned, and every later pass finds the score
  \<open>ss\<close>. Otherwise \<open>n\<close> keeps its mark and its score in this pass, every proper
  descendant of \<open>n\<close> is unmarked and is not returned, and \<open>n\<close> is returned exactly
  when no proper ancestor of \<open>n\<close> is.
\<close>

theorem select_step_rule:
  assumes ord: "id_ordered t" and cov: "stability_covers t stab"
      and split: "node_list stab = pre @ n # post"
  shows "\<exists>s1 ss sn s2 res.
           select_loop (cluster_tree t) pre (initial_selection stab) = Some (Inr s1) \<and>
           (\<forall>r\<in>set (cluster_tree t). parent r = n \<longrightarrow> stability s1 (child r) \<noteq> None) \<and>
           ss = sum_list (map (\<lambda>r. the (stability s1 (child r)))
                  (filter (\<lambda>r. parent r = n) (cluster_tree t))) \<and>
           stability s1 n = Some sn \<and>
           select_step (cluster_tree t) n s1 = Some (Inr s2) \<and>
           select_clusters t stab = Some (Inr res) \<and>
           (\<forall>a. is_ancestor (cluster_tree t) a n \<longrightarrow> a \<notin> set pre) \<and>
           (if ss > sn
            then is_cluster s2 n = Some False \<and> stability s2 n = Some ss \<and> n \<notin> set res \<and>
                 (\<forall>post1 post2 s3. post = post1 @ post2 \<longrightarrow>
                    select_loop (cluster_tree t) post1 s2 = Some (Inr s3) \<longrightarrow>
                    stability s3 n = Some ss)
            else is_cluster s2 n = Some True \<and> stability s2 n = Some sn \<and>
                 (\<forall>d. is_ancestor (cluster_tree t) n d \<longrightarrow>
                    is_cluster s2 d = Some False \<and> d \<notin> set res) \<and>
                 (n \<in> set res \<longleftrightarrow> \<not> (\<exists>a\<in>set res. is_ancestor (cluster_tree t) a n)))"
proof -
  let ?ct = "cluster_tree t"
  note rows = id_ordered_rows [OF ord]
  from select_pass [OF ord cov split]
  obtain s1 sn s2 sf where p:
    "select_loop ?ct pre (initial_selection stab) = Some (Inr s1)"
    "is_cluster s1 n = Some True"
    "set (children_of ?ct n) \<subseteq> dom (stability s1)"
    "stability s1 n = Some sn"
    "select_step ?ct n s1 = Some (Inr s2)"
    "if sum_list (map (\<lambda>c. the (stability s1 c)) (children_of ?ct n)) > sn
     then is_cluster s2 = (is_cluster s1)(n \<mapsto> False) \<and>
          stability s2 = (stability s1)(n \<mapsto>
            sum_list (map (\<lambda>c. the (stability s1 c)) (children_of ?ct n)))
     else stability s2 = stability s1 \<and>
          (\<forall>x. is_cluster s2 x =
             (if is_ancestor ?ct n x then Some False else is_cluster s1 x))"
    "select_loop ?ct post s2 = Some (Inr sf)"
    "select_clusters t stab =
       Some (Inr (filter (\<lambda>c. is_cluster sf c = Some True) (node_list stab)))"
    by blast
  let ?res = "filter (\<lambda>c. is_cluster sf c = Some True) (node_list stab)"
  define ss where "ss = sum_list (map (\<lambda>r. the (stability s1 (child r)))
                          (filter (\<lambda>r. parent r = n) ?ct))"
  have ss: "sum_list (map (\<lambda>c. the (stability s1 c)) (children_of ?ct n)) = ss"
    by (simp add: ss_def children_of_def comp_def)
  have scored: "\<forall>r\<in>set ?ct. parent r = n \<longrightarrow> stability s1 (child r) \<noteq> None"
    using p(3) by (auto simp: children_of_def)
  have later: "x \<notin> set ?res" if "is_cluster s2 x = Some False" for x
    using select_loop_mono [OF p(7), of x] that by auto
  have anc: "\<forall>a. is_ancestor ?ct a n \<longrightarrow> a \<notin> set pre"
  proof (intro allI impI)
    fix a assume "is_ancestor ?ct a n"
    then have "a < n" by (rule ancestor_less [OF rows])
    with node_list_split(1) [OF split] show "a \<notin> set pre" by auto
  qed
  have branch:
    "if ss > sn
     then is_cluster s2 n = Some False \<and> stability s2 n = Some ss \<and> n \<notin> set ?res \<and>
          (\<forall>post1 post2 s3. post = post1 @ post2 \<longrightarrow>
             select_loop ?ct post1 s2 = Some (Inr s3) \<longrightarrow> stability s3 n = Some ss)
     else is_cluster s2 n = Some True \<and> stability s2 n = Some sn \<and>
          (\<forall>d. is_ancestor ?ct n d \<longrightarrow> is_cluster s2 d = Some False \<and> d \<notin> set ?res) \<and>
          (n \<in> set ?res \<longleftrightarrow> \<not> (\<exists>a\<in>set ?res. is_ancestor ?ct a n))"
  proof (cases "ss > sn")
    case True
    with p(6) ss have s2: "is_cluster s2 n = Some False" "stability s2 n = Some ss" by simp_all
    have "stability s3 n = Some ss"
      if "post = post1 @ post2" "select_loop ?ct post1 s2 = Some (Inr s3)" for post1 post2 s3
    proof -
      from that(1) node_list_split(4) [OF split] have "n \<notin> set post1" by simp
      from select_loop_stability_frame [OF that(2) this] s2(2) show ?thesis by simp
    qed
    with True s2 later [OF s2(1)] show ?thesis by simp
  next
    case False
    then have keep: "\<not> sum_list (map (\<lambda>c. the (stability s1 c)) (children_of ?ct n)) > sn"
      by (simp add: ss)
    from kept_node [OF ord cov split p(1) p(4) keep] p(5) p(8)
    have "is_cluster s2 n = Some True \<and> stability s2 n = Some sn \<and>
          (\<forall>d. is_ancestor ?ct n d \<longrightarrow> is_cluster s2 d = Some False \<and> d \<notin> set ?res) \<and>
          (n \<in> set ?res \<longleftrightarrow> \<not> (\<exists>a\<in>set ?res. is_ancestor ?ct a n))"
      by auto
    with False show ?thesis by simp
  qed
  from p(1) scored ss_def p(4,5,8) anc branch show ?thesis by blast
qed

lemma rewrite_reached:
  "\<exists>s1. select_loop (cluster_tree deep_tree) [6, 5, 4, 3, 2] (initial_selection rewrite_stability) =
          Some (Inr s1) \<and>
        stability s1 3 = Some 2 \<and> stability s1 4 = Some 1 \<and> stability s1 1 = Some (5 / 2)"
  by (simp add: select_eval deep_tree_def rewrite_stability_def)

theorem select_step_rule_witness:
  "\<exists>s1 s2.
     select_loop (cluster_tree deep_tree) [6, 5, 4, 3, 2] (initial_selection rewrite_stability) =
       Some (Inr s1) \<and>
     stability s1 3 = Some 2 \<and> stability s1 4 = Some 1 \<and> stability s1 1 = Some (5 / 2) \<and>
     select_step (cluster_tree deep_tree) 1 s1 = Some (Inr s2) \<and>
     is_cluster s2 1 = Some False \<and> stability s2 1 = Some 3 \<and>
     select_clusters deep_tree rewrite_stability = Some (Inr [6, 5, 4, 2])"
proof -
  have split: "node_list rewrite_stability = [6, 5, 4, 3, 2] @ 1 # []"
    by (simp add: node_list_def rewrite_stability_def)
  from rewrite_reached obtain s1 where s1:
    "select_loop (cluster_tree deep_tree) [6, 5, 4, 3, 2] (initial_selection rewrite_stability) =
       Some (Inr s1)"
    "stability s1 3 = Some 2" "stability s1 4 = Some 1" "stability s1 1 = Some (5 / 2)"
    by blast
  have kids: "filter (\<lambda>r. parent r = 1) (cluster_tree deep_tree) =
      [\<lparr>parent = 1, child = 3, lambda = 1, child_size = 15\<rparr>,
       \<lparr>parent = 1, child = 4, lambda = 1, child_size = 25\<rparr>]"
    by (simp add: deep_tree_def cluster_tree_def)
  from select_step_rule [OF id_ordered_deep_tree stability_covers_rewrite split]
  obtain s1' ss sn s2 res where r:
    "select_loop (cluster_tree deep_tree) [6, 5, 4, 3, 2] (initial_selection rewrite_stability) =
       Some (Inr s1')"
    "ss = sum_list (map (\<lambda>r. the (stability s1' (child r)))
            (filter (\<lambda>r. parent r = 1) (cluster_tree deep_tree)))"
    "stability s1' 1 = Some sn"
    "select_step (cluster_tree deep_tree) 1 s1' = Some (Inr s2)"
    "if ss > sn
     then is_cluster s2 1 = Some False \<and> stability s2 1 = Some ss \<and> 1 \<notin> set res \<and>
          (\<forall>post1 post2 s3. [] = post1 @ post2 \<longrightarrow>
             select_loop (cluster_tree deep_tree) post1 s2 = Some (Inr s3) \<longrightarrow>
             stability s3 1 = Some ss)
     else is_cluster s2 1 = Some True \<and> stability s2 1 = Some sn \<and>
          (\<forall>d. is_ancestor (cluster_tree deep_tree) 1 d \<longrightarrow>
             is_cluster s2 d = Some False \<and> d \<notin> set res) \<and>
          (1 \<in> set res \<longleftrightarrow> \<not> (\<exists>a\<in>set res. is_ancestor (cluster_tree deep_tree) a 1))"
    by blast
  from r(1) s1(1) have same: "s1' = s1" by simp
  from r(2) same kids s1(2,3) have "ss = 3" by simp
  moreover from r(3) same s1(4) have "sn = 5 / 2" by simp
  ultimately have "is_cluster s2 1 = Some False" "stability s2 1 = Some 3"
    using r(5) by simp_all
  with s1 r(4) same select_clusters_rewrite show ?thesis by auto
qed

section \<open>Ties\<close>

lemma select_clusters_unordered_tie:
  "select_clusters unordered_tree unordered_tie_stability = Some (Inr [6, 5])"
  by (simp add: select_eval unordered_tree_def unordered_tie_stability_def)

lemma unordered_tie_mark:
  "map_option (map_sum id (\<lambda>s. is_cluster s 1))
     (select_loop (cluster_tree unordered_tree) [6, 5, 4, 3, 2, 1]
        (initial_selection unordered_tie_stability)) = Some (Inr (Some False))"
  by (simp add: select_eval unordered_tree_def unordered_tie_stability_def)

text \<open>
  C6, as stated: a node whose children's summed score equals its own is selected. In
  the three-level tree cluster 3 ties with its children 5 and 6 (1 + 1 = 2), yet the
  returned set is [2, 1]: cluster 1, evaluated later, beats its own children and
  absorbs its subtree, cluster 3 included. And where the ids do not follow the
  hierarchy the tie does not even keep the mark: below root 0 with clusters 5 and 6,
  1 and 2 below 5, 3 and 4 below 1, cluster 1 ties with its children (5 + 5 = 10)
  when it is evaluated, last of all, but cluster 5 has unmarked it before; the
  returned set is [6, 5].
\<close>

theorem tie_selected_counterexample:
  "well_formed deep_tree \<and> stability_covers deep_tree deep_stability \<and>
   children_of (cluster_tree deep_tree) 3 = [5, 6] \<and>
   map (map_of deep_stability) [5, 6, 3] = [Some 1, Some 1, Some 2] \<and>
   select_clusters deep_tree deep_stability = Some (Inr [2, 1]) \<and>
   well_formed unordered_tree \<and> stability_covers unordered_tree unordered_tie_stability \<and>
   children_of (cluster_tree unordered_tree) 1 = [3, 4] \<and>
   map (map_of unordered_tie_stability) [3, 4, 1] = [Some 5, Some 5, Some 10] \<and>
   map_option (map_sum id (\<lambda>s. is_cluster s 1))
     (select_loop (cluster_tree unordered_tree) [6, 5, 4, 3, 2, 1]
        (initial_selection unordered_tie_stability)) = Some (Inr (Some False)) \<and>
   select_clusters unordered_tree unordered_tie_stability = Some (Inr [6, 5])"
proof -
  have "children_of (cluster_tree deep_tree) 3 = [5, 6]"
    by (simp add: deep_tree_def cluster_tree_def children_of_def)
  moreover have "map (map_of deep_stability) [5, 6, 3] = [Some 1, Some 1, Some 2]"
    by (simp add: deep_stability_def)
  moreover have "children_of (cluster_tree unordered_tree) 1 = [3, 4]"
    by (simp add: unordered_tree_def cluster_tree_def children_of_def)
  moreover have "map (map_of unordered_tie_stability) [3, 4, 1] = [Some 5, Some 5, Some 10]"
    by (simp add: unordered_tie_stability_def)
  ultimately show ?thesis
    using well_formed_deep_tree stability_covers_deep select_clusters_deep
      well_formed_unordered_tree stability_covers_unordered_tie unordered_tie_mark
      select_clusters_unordered_tie
    by simp
qed

text \<open>
  C6, amended: let the cluster children of the tree have larger ids than their
  parents and let the stability map have a score for every cluster other than the
  root. When the summed score of the direct cluster children of a node \<open>n\<close> of
  the list equals the score of \<open>n\<close> at the moment \<open>n\<close> is evaluated, the pass
  keeps the mark and the score of \<open>n\<close> and unmarks every proper descendant, none
  of which is returned; \<open>n\<close> itself is returned exactly when no proper ancestor of
  \<open>n\<close> is returned.
\<close>

theorem tie_keeps_parent:
  assumes ord: "id_ordered t" and cov: "stability_covers t stab"
      and split: "node_list stab = pre @ n # post"
      and reached: "select_loop (cluster_tree t) pre (initial_selection stab) = Some (Inr s1)"
      and tie: "stability s1 n =
                  Some (sum_list (map (\<lambda>r. the (stability s1 (child r)))
                          (filter (\<lambda>r. parent r = n) (cluster_tree t))))"
  shows "\<exists>s2 res.
           select_step (cluster_tree t) n s1 = Some (Inr s2) \<and>
           is_cluster s2 n = Some True \<and> stability s2 n = stability s1 n \<and>
           select_clusters t stab = Some (Inr res) \<and>
           (\<forall>d. is_ancestor (cluster_tree t) n d \<longrightarrow>
              is_cluster s2 d = Some False \<and> d \<notin> set res) \<and>
           (n \<in> set res \<longleftrightarrow> \<not> (\<exists>a\<in>set res. is_ancestor (cluster_tree t) a n))"
proof -
  let ?sum = "sum_list (map (\<lambda>c. the (stability s1 c)) (children_of (cluster_tree t) n))"
  have same: "sum_list (map (\<lambda>r. the (stability s1 (child r)))
                (filter (\<lambda>r. parent r = n) (cluster_tree t))) = ?sum"
    by (simp add: children_of_def comp_def)
  from tie same have score: "stability s1 n = Some ?sum" by simp
  have keep: "\<not> ?sum > ?sum" by simp
  from kept_node [OF ord cov split reached score keep] score show ?thesis by simp
qed

lemma deep_tie_reached:
  "\<exists>s1. select_loop (cluster_tree deep_tree) [6, 5, 4] (initial_selection deep_stability) =
          Some (Inr s1) \<and>
        stability s1 5 = Some 1 \<and> stability s1 6 = Some 1 \<and> stability s1 3 = Some 2"
  by (simp add: select_eval deep_tree_def deep_stability_def)

theorem tie_keeps_parent_witness:
  "\<exists>s1 s2.
     select_loop (cluster_tree deep_tree) [6, 5, 4] (initial_selection deep_stability) =
       Some (Inr s1) \<and>
     stability s1 5 = Some 1 \<and> stability s1 6 = Some 1 \<and> stability s1 3 = Some 2 \<and>
     select_step (cluster_tree deep_tree) 3 s1 = Some (Inr s2) \<and>
     is_cluster s2 3 = Some True \<and> stability s2 3 = Some 2 \<and>
     is_cluster s2 5 = Some False \<and> is_cluster s2 6 = Some False \<and>
     select_clusters deep_tree deep_stability = Some (Inr [2, 1]) \<and>
     is_ancestor (cluster_tree deep_tree) 1 3"
proof -
  have split: "node_list deep_stability = [6, 5, 4] @ 3 # [2, 1]"
    by (simp add: node_list_def deep_stability_def)
  from deep_tie_reached obtain s1 where s1:
    "select_loop (cluster_tree deep_tree) [6, 5, 4] (initial_selection deep_stability) =
       Some (Inr s1)"
    "stability s1 5 = Some 1" "stability s1 6 = Some 1" "stability s1 3 = Some 2" by blast
  have kids: "filter (\<lambda>r. parent r = 3) (cluster_tree deep_tree) =
      [\<lparr>parent = 3, child = 5, lambda = 2, child_size = 7\<rparr>,
       \<lparr>parent = 3, child = 6, lambda = 2, child_size = 8\<rparr>]"
    by (simp add: deep_tree_def cluster_tree_def)
  have tie: "stability s1 3 =
      Some (sum_list (map (\<lambda>r. the (stability s1 (child r)))
              (filter (\<lambda>r. parent r = 3) (cluster_tree deep_tree))))"
    using s1(2-4) by (simp add: kids)
  from tie_keeps_parent [OF id_ordered_deep_tree stability_covers_deep split s1(1) tie]
  obtain s2 res where r:
    "select_step (cluster_tree deep_tree) 3 s1 = Some (Inr s2)"
    "is_cluster s2 3 = Some True" "stability s2 3 = stability s1 3"
    "select_clusters deep_tree deep_stability = Some (Inr res)"
    "\<forall>d. is_ancestor (cluster_tree deep_tree) 3 d \<longrightarrow>
       is_cluster s2 d = Some False \<and> d \<notin> set res"
    by blast
  have e: "edges (cluster_tree deep_tree) = {(0, 1), (0, 2), (1, 3), (1, 4), (3, 5), (3, 6)}"
    by (simp add: edges_def deep_tree_def cluster_tree_def)
  have a35: "is_ancestor (cluster_tree deep_tree) 3 5" "is_ancestor (cluster_tree deep_tree) 3 6"
    "is_ancestor (cluster_tree deep_tree) 1 3"
    unfolding is_ancestor_def e by (rule r_into_trancl, simp)+
  from r(5) a35 have "is_cluster s2 5 = Some False" "is_cluster s2 6 = Some False" by blast+
  with s1 r(1-3) select_clusters_deep a35(3) show ?thesis by auto
qed

section \<open>Trees without a cluster leaf\<close>

lemma rows_of_cluster:
  "filter (\<lambda>r. parent r = c \<and> child_size r > 1) t = filter (\<lambda>r. parent r = c) (cluster_tree t)"
  by (simp add: cluster_tree_def conj_commute)

lemma coords_loop_no_clusters:
  "cluster_tree t = [] \<Longrightarrow> coords_loop t cs xy = Inr xy"
proof (induction cs)
  case Nil
  then show ?case by simp
next
  case (Cons c cs)
  then show ?case by (cases xy) (simp add: rows_of_cluster)
qed

text \<open>Without a cycle some cluster has no cluster child: a leaf.\<close>

lemma cluster_tree_has_leaf:
  assumes acyc: "acyclic (edges (cluster_tree t))"
      and ne: "cluster_tree t \<noteq> []"
  shows "get_leaves t \<noteq> []"
proof -
  let ?ct = "cluster_tree t"
  let ?C = "set (map child ?ct)"
  have "finite (edges ?ct)" by (simp add: edges_def)
  from finite_acyclic_wf_converse [OF this acyc] have wf: "wf ((edges ?ct)\<inverse>)" .
  from ne have "?C \<noteq> {}" by simp
  with wf obtain z where z: "z \<in> ?C" "\<And>y. (y, z) \<in> (edges ?ct)\<inverse> \<Longrightarrow> y \<notin> ?C"
    by (rule wfE_min') blast
  have "filter (\<lambda>q. parent q = z) ?ct = []"
  proof (rule ccontr)
    assume "filter (\<lambda>q. parent q = z) ?ct \<noteq> []"
    then obtain q where q: "q \<in> set ?ct" "parent q = z"
      by (auto simp: filter_empty_conv)
    then have "(child q, z) \<in> (edges ?ct)\<inverse>" by (auto simp: edges_iff)
    from z(2) [OF this] q(1) show False by simp
  qed
  with z(1) have "z \<in> set (get_leaves t)" by (auto simp: get_leaves_def)
  then show ?thesis by auto
qed

lemma parent_le_last_leaf: "r \<in> set t \<Longrightarrow> parent r \<le> last_leaf t"
  unfolding last_leaf_def by (rule Max_ge) auto

lemma root_id_le_last_leaf: "t \<noteq> [] \<Longrightarrow> root_id t \<le> last_leaf t"
proof -
  assume "t \<noteq> []"
  then obtain r where "r \<in> set t" by (cases t) auto
  from root_id_le_parent [OF this] parent_le_last_leaf [OF this] show ?thesis by simp
qed

lemma cluster_range_Cons:
  assumes "t \<noteq> []"
  shows "cluster_range t = last_leaf t # rev [root_id t..last_leaf t - 1]"
  using root_id_le_last_leaf [OF assms] by (simp add: cluster_range_def upto_rec2)

lemma bounds_loop_no_x:
  "x c = None \<Longrightarrow> bounds_loop t lg sc x y (c # cs) = Inl KeyError"
  by (simp add: Let_def split: option.splits)

lemma single_cluster_no_leaves: "get_leaves single_cluster_tree = []"
  by (simp add: get_leaves_def cluster_tree_def single_cluster_tree_def)

lemma single_cluster_key_error:
  "get_plot_data single_cluster_tree 1 False = Inl KeyError"
  by (simp add: layout_eval single_cluster_tree_def)

text \<open>
  C4 wants a layout with empty bar and line sequences for a well-formed tree without
  a cluster leaf. The code gives none: on every such tree, whatever the separation
  and the size mode, \<open>get_plot_data\<close> raises \<open>KeyError\<close>. The x-coordinates
  are set from the leaves and from the splits, there is neither, and the second loop
  looks up the x-coordinate of the cluster \<open>max(parent)\<close>.
\<close>

theorem zero_leaves_key_error:
  assumes wf: "well_formed t" and none: "get_leaves t = []"
  shows "get_plot_data t leaf_separation log_size = Inl KeyError"
proof -
  from wf have ne: "t \<noteq> []" by (simp add: well_formed_def)
  have ct: "cluster_tree t = []"
    using cluster_tree_has_leaf [OF well_formed_acyclic [OF wf]] none by blast
  have x0: "initial_x t leaf_separation = Map.empty"
    by (simp add: initial_x_def none)
  have coords: "cluster_coords t leaf_separation = Inr (Map.empty, [root_id t \<mapsto> 0])"
    by (simp add: cluster_coords_def x0 coords_loop_no_clusters [OF ct])
  have "bounds_loop t log_size (scaling_of t log_size) Map.empty [root_id t \<mapsto> 0]
          (cluster_range t) = Inl KeyError"
    by (simp only: cluster_range_Cons [OF ne] bounds_loop_no_x)
  with ne coords show ?thesis by (simp add: get_plot_data_def)
qed

theorem zero_leaves_key_error_witness:
  "get_leaves single_cluster_tree = [] \<and>
   get_plot_data single_cluster_tree 1 False = Inl KeyError \<and>
   get_plot_data single_cluster_tree 2 True = Inl KeyError"
  using zero_leaves_key_error [OF well_formed_single_cluster_tree single_cluster_no_leaves]
    single_cluster_no_leaves
  by simp

section \<open>Bars\<close>

lemma sum_list_insort_key:
  "sum_list (map g (insort_key f x xs)) = g x + sum_list (map g xs)"
  for g :: "'a \<Rightarrow> int"
  by (induction xs) auto

lemma sum_list_sort_key:
  "sum_list (map g (sort_key f xs)) = sum_list (map g xs)"
  for g :: "'a \<Rightarrow> int"
  by (induction xs) (auto simp: sum_list_insort_key)

text \<open>
  In the plain size mode the running size is the summed size of the rows still to
  come, so every bar is as wide as a non-empty tail of the sorted rows is heavy.
\<close>

lemma bar_loop_widths:
  "current_size = real_of_int (sum_list (map child_size rows)) \<Longrightarrow>
   b \<in> set (bar_loop False ctr rows current_size lam) \<Longrightarrow>
   \<exists>k<length rows. bar_width b = real_of_int (sum_list (map child_size (drop k rows)))"
proof (induction rows arbitrary: current_size lam)
  case Nil
  then show ?case by simp
next
  case (Cons r rs)
  let ?rest = "bar_loop False ctr rs (current_size - real_of_int (child_size r)) (lambda r)"
  from Cons.prems(2) consider
    "bar_width b = current_size" | "b \<in> set ?rest"
    by (auto split: if_splits)
  then show ?case
  proof cases
    case 1
    with Cons.prems(1) have "bar_width b = real_of_int (sum_list (map child_size (drop 0 (r # rs))))"
      by simp
    then show ?thesis by blast
  next
    case 2
    have "current_size - real_of_int (child_size r) = real_of_int (sum_list (map child_size rs))"
      using Cons.prems(1) by simp
    from Cons.IH [OF this 2] obtain k where
      "k < length rs" "bar_width b = real_of_int (sum_list (map child_size (drop k rs)))"
      by blast
    then have "Suc k < length (r # rs)"
      "bar_width b = real_of_int (sum_list (map child_size (drop (Suc k) (r # rs))))"
      by simp_all
    then show ?thesis by blast
  qed
qed

lemma bounds_loop_Cons_Inr:
  assumes "bounds_loop t lg sc x y (c # cs) = Inr (bars, bnds)"
  obtains lam xc bars0 bnds0 where
    "y c = Some lam" "x c = Some xc" "filter (\<lambda>r. parent r = c) t \<noteq> []"
    "bounds_loop t lg sc x y cs = Inr (bars0, bnds0)"
    "bars = bar_loop lg (xc * sc) (sort_key lambda (filter (\<lambda>r. parent r = c) t))
              (if lg then ln (real_of_int (sum_list (map child_size (filter (\<lambda>r. parent r = c) t))))
               else real_of_int (sum_list (map child_size (filter (\<lambda>r. parent r = c) t))))
              lam @ bars0"
    "length bnds = Suc (length bnds0)" "map fst bnds = c # map fst bnds0"
proof -
  from assms obtain lam where lam: "y c = Some lam"
    by (cases "y c") (simp_all add: Let_def)
  from assms lam obtain xc where xc: "x c = Some xc"
    by (cases "x c") (simp_all add: Let_def)
  from assms lam xc obtain r rs where rows: "filter (\<lambda>r. parent r = c) t = r # rs"
    by (cases "filter (\<lambda>r. parent r = c) t") (simp_all add: Let_def)
  from assms lam xc rows obtain bars0 bnds0 where
    rest: "bounds_loop t lg sc x y cs = Inr (bars0, bnds0)"
    by (cases "bounds_loop t lg sc x y cs") (auto simp: Let_def)
  from assms lam xc rows rest
  have "bars = bar_loop lg (xc * sc) (sort_key lambda (filter (\<lambda>r. parent r = c) t))
              (if lg then ln (real_of_int (sum_list (map child_size (filter (\<lambda>r. parent r = c) t))))
               else real_of_int (sum_list (map child_size (filter (\<lambda>r. parent r = c) t))))
              lam @ bars0"
    and "length bnds = Suc (length bnds0)" and "map fst bnds = c # map fst bnds0"
    by (auto simp: Let_def)
  with lam xc rows rest that show thesis by simp
qed

lemma bounds_loop_widths:
  "bounds_loop t False sc x y cs = Inr (bars, bnds) \<Longrightarrow> b \<in> set bars \<Longrightarrow>
   \<exists>c\<in>set cs. \<exists>k<length (filter (\<lambda>r. parent r = c) t).
      bar_width b =
        real_of_int (sum_list (map child_size
          (drop k (sort_key lambda (filter (\<lambda>r. parent r = c) t)))))"
proof (induction cs arbitrary: bars bnds)
  case Nil
  then show ?case by simp
next
  case (Cons c cs)
  let ?rows = "filter (\<lambda>r. parent r = c) t"
  from Cons.prems(1) obtain lam xc bars0 bnds0 where
    rest: "bounds_loop t False sc x y cs = Inr (bars0, bnds0)" and
    bars: "bars = bar_loop False (xc * sc) (sort_key lambda ?rows)
                    (real_of_int (sum_list (map child_size ?rows))) lam @ bars0"
    by (rule bounds_loop_Cons_Inr) simp
  from Cons.prems(2) bars consider
    "b \<in> set (bar_loop False (xc * sc) (sort_key lambda ?rows)
                (real_of_int (sum_list (map child_size ?rows))) lam)"
    | "b \<in> set bars0" by auto
  then show ?case
  proof cases
    case 1
    have "real_of_int (sum_list (map child_size ?rows)) =
          real_of_int (sum_list (map child_size (sort_key lambda ?rows)))"
      by (simp add: sum_list_sort_key)
    from bar_loop_widths [OF this 1] show ?thesis by auto
  next
    case 2
    from Cons.IH [OF rest 2] show ?thesis by auto
  qed
qed

lemma sum_sizes_positive:
  "rows \<noteq> [] \<Longrightarrow> \<forall>r\<in>set rows. 1 \<le> child_size r \<Longrightarrow> 0 < sum_list (map child_size rows)"
proof (induction rows)
  case Nil
  then show ?case by simp
next
  case (Cons r rs)
  have "0 \<le> sum_list (map child_size rs)"
    using Cons.prems(2) by (intro sum_list_nonneg) auto
  with Cons.prems(2) show ?case by simp
qed

lemma get_plot_data_InrE:
  assumes "get_plot_data t sep lg = Inr r"
  obtains x y bars ls where
    "t \<noteq> []" "cluster_coords t sep = Inr (x, y)"
    "bounds_loop t lg (scaling_of t lg) x y (cluster_range t) = Inr (bars, cluster_bounds r)"
    "lines_loop lg (scaling_of t lg) x y (cluster_tree t) = Inr ls"
    "bar_widths r = map bar_width bars" "line_xs r = map fst ls"
proof -
  from assms have ne: "t \<noteq> []" by (auto simp: get_plot_data_def split: if_splits)
  from assms ne obtain x y where c: "cluster_coords t sep = Inr (x, y)"
    by (cases "cluster_coords t sep") (auto simp: get_plot_data_def)
  from assms ne c obtain bars bnds where
    b: "bounds_loop t lg (scaling_of t lg) x y (cluster_range t) = Inr (bars, bnds)"
    by (cases "bounds_loop t lg (scaling_of t lg) x y (cluster_range t)")
       (auto simp: get_plot_data_def)
  from assms ne c b obtain ls where
    l: "lines_loop lg (scaling_of t lg) x y (cluster_tree t) = Inr ls"
    by (cases "lines_loop lg (scaling_of t lg) x y (cluster_tree t)")
       (auto simp: get_plot_data_def)
  from assms ne c b l have "bar_widths r = map bar_width bars" "line_xs r = map fst ls"
    "cluster_bounds r = bnds"
    by (auto simp: get_plot_data_def)
  with ne c b l that show thesis by simp
qed

text \<open>
  C10: in the plain size mode every emitted bar width is positive; it is the summed
  \<open>child_size\<close> of a non-empty tail of the rows of some cluster of the range, taken
  in their sorted order (the rows not yet processed, the triggering row first).
\<close>

theorem bar_widths_positive:
  assumes wf: "well_formed t"
      and run: "get_plot_data t leaf_separation False = Inr r"
      and w: "w \<in> set (bar_widths r)"
  shows "0 < w \<and>
         (\<exists>c\<in>set (cluster_range t). \<exists>k<length (filter (\<lambda>q. parent q = c) t).
            w = real_of_int (sum_list (map child_size
                  (drop k (sort_key lambda (filter (\<lambda>q. parent q = c) t))))))"
proof -
  from run obtain x y bars ls where
    b: "bounds_loop t False (scaling_of t False) x y (cluster_range t) =
          Inr (bars, cluster_bounds r)" and
    ws: "bar_widths r = map bar_width bars" and
    "lines_loop False (scaling_of t False) x y (cluster_tree t) = Inr ls"
    by (rule get_plot_data_InrE) blast
  from w ws obtain b0 where b0: "b0 \<in> set bars" "bar_width b0 = w" by auto
  from bounds_loop_widths [OF b b0(1)] obtain c k where
    "c \<in> set (cluster_range t)" "k < length (filter (\<lambda>q. parent q = c) t)"
    "bar_width b0 = real_of_int (sum_list (map child_size
           (drop k (sort_key lambda (filter (\<lambda>q. parent q = c) t)))))"
    by blast
  with b0(2) have ck:
    "c \<in> set (cluster_range t)" "k < length (filter (\<lambda>q. parent q = c) t)"
    "w = real_of_int (sum_list (map child_size
           (drop k (sort_key lambda (filter (\<lambda>q. parent q = c) t)))))"
    by simp_all
  let ?tail = "drop k (sort_key lambda (filter (\<lambda>q. parent q = c) t))"
  have "?tail \<noteq> []" using ck(2) by simp
  moreover have "\<forall>q\<in>set ?tail. 1 \<le> child_size q"
  proof
    fix q assume "q \<in> set ?tail"
    then have "q \<in> set (sort_key lambda (filter (\<lambda>q. parent q = c) t))"
      by (rule in_set_dropD)
    then have "q \<in> set t" by simp
    with wf show "1 \<le> child_size q" by (simp add: well_formed_def)
  qed
  ultimately have "0 < sum_list (map child_size ?tail)" by (rule sum_sizes_positive)
  with ck show ?thesis by auto
qed

lemma example_plain_run:
  "map_sum id (\<lambda>r. (bar_widths r, length (line_xs r), map fst (cluster_bounds r)))
     (get_plot_data example_tree 1 False) = Inr ([2, 2, 1, 5, 4], 2, [7, 6, 5])"
  by (simp add: layout_eval example_tree_def)

lemma example_plain_result:
  "\<exists>r. get_plot_data example_tree 1 False = Inr r \<and> bar_widths r = [2, 2, 1, 5, 4] \<and>
       length (line_xs r) = 2 \<and> map fst (cluster_bounds r) = [7, 6, 5]"
  using example_plain_run
  by (cases "get_plot_data example_tree 1 False") auto

theorem bar_widths_positive_witness:
  "\<exists>r. get_plot_data example_tree 1 False = Inr r \<and> bar_widths r = [2, 2, 1, 5, 4] \<and>
       (0::real) < 4 \<and>
       (\<exists>c\<in>set (cluster_range example_tree).
          \<exists>k<length (filter (\<lambda>q. parent q = c) example_tree).
            (4::real) = real_of_int (sum_list (map child_size
                 (drop k (sort_key lambda (filter (\<lambda>q. parent q = c) example_tree))))))"
proof -
  from example_plain_result obtain r where
    r: "get_plot_data example_tree 1 False = Inr r" "bar_widths r = [2, 2, 1, 5, 4]"
    by blast
  then have "4 \<in> set (bar_widths r)" by simp
  from bar_widths_positive [OF well_formed_example_tree r(1) this] r
  show ?thesis by blast
qed

section \<open>The logarithmic size mode\<close>

lemma bar_loop_log:
  "\<forall>r\<in>set rows. 1 \<le> child_size r \<Longrightarrow>
   current_size = real_of_int (sum_list (map child_size rows)) \<Longrightarrow>
   map bar_width (bar_loop True c1 rows (ln current_size) lam) =
   map (\<lambda>b. ln (bar_width b)) (bar_loop False c2 rows current_size lam)"
proof (induction rows arbitrary: current_size lam)
  case Nil
  then show ?case by simp
next
  case (Cons r rs)
  have pos: "0 < current_size"
  proof -
    have "0 < sum_list (map child_size (r # rs))"
      using Cons.prems(1) by (intro sum_sizes_positive) simp_all
    with Cons.prems(2) show ?thesis by simp
  qed
  have next_size: "current_size - real_of_int (child_size r) =
                   real_of_int (sum_list (map child_size rs))"
    using Cons.prems(2) by simp
  from Cons.prems(1) have rest: "\<forall>q\<in>set rs. 1 \<le> child_size q" by simp
  have "map bar_width (bar_loop True c1 rs (ln (current_size - real_of_int (child_size r)))
                         (lambda r)) =
        map (\<lambda>b. ln (bar_width b))
            (bar_loop False c2 rs (current_size - real_of_int (child_size r)) (lambda r))"
    by (rule Cons.IH [OF rest next_size])
  with pos show ?case by simp
qed

lemma bounds_loop_log:
  assumes sizes: "\<forall>r\<in>set t. 1 \<le> child_size r"
  shows "map_sum id (\<lambda>p. map bar_width (fst p)) (bounds_loop t True sc1 x y cs) =
         map_sum id (\<lambda>p. map (\<lambda>b. ln (bar_width b)) (fst p)) (bounds_loop t False sc2 x y cs)"
proof (induction cs)
  case Nil
  then show ?case by simp
next
  case (Cons c cs)
  let ?rows = "filter (\<lambda>r. parent r = c) t"
  show ?case
  proof (cases "y c")
    case None
    then show ?thesis by (simp add: Let_def)
  next
    case (Some lam)
    note lam = this
    show ?thesis
    proof (cases "x c")
      case None
      with lam show ?thesis by (simp add: Let_def)
    next
      case (Some xc)
      note xc = this
      show ?thesis
      proof (cases ?rows)
        case Nil
        with lam xc show ?thesis by (simp add: Let_def)
      next
        case (Cons r rs)
        have "\<forall>q\<in>set (sort_key lambda ?rows). 1 \<le> child_size q"
          using sizes by simp
        moreover have "real_of_int (sum_list (map child_size ?rows)) =
                       real_of_int (sum_list (map child_size (sort_key lambda ?rows)))"
          by (simp add: sum_list_sort_key)
        ultimately have bars:
          "map bar_width (bar_loop True (xc * sc1) (sort_key lambda ?rows)
                            (ln (real_of_int (sum_list (map child_size ?rows)))) lam) =
           map (\<lambda>b. ln (bar_width b))
               (bar_loop False (xc * sc2) (sort_key lambda ?rows)
                  (real_of_int (sum_list (map child_size ?rows))) lam)"
          by (rule bar_loop_log)
        show ?thesis
        proof (cases "bounds_loop t False sc2 x y cs")
          case (Inl e)
          with Cons.IH have "bounds_loop t True sc1 x y cs = Inl e"
            by (cases "bounds_loop t True sc1 x y cs") simp_all
          with Inl lam xc Cons show ?thesis by (simp add: Let_def)
        next
          case (Inr p)
          with Cons.IH obtain p' where p': "bounds_loop t True sc1 x y cs = Inr p'"
            "map bar_width (fst p') = map (\<lambda>b. ln (bar_width b)) (fst p)"
            by (cases "bounds_loop t True sc1 x y cs") simp_all
          from Inr p' lam xc Cons bars [unfolded Cons] show ?thesis
            by (cases p, cases p') (simp add: Let_def)
        qed
      qed
    qed
  qed
qed

lemma lines_loop_log:
  "map_sum id length (lines_loop True sc1 x y rows) =
   map_sum id length (lines_loop False sc2 x y rows)"
proof (induction rows)
  case Nil
  then show ?case by simp
next
  case (Cons r rs)
  show ?case
  proof (cases "lines_loop False sc2 x y rs")
    case (Inl e)
    with Cons.IH have "lines_loop True sc1 x y rs = Inl e"
      by (cases "lines_loop True sc1 x y rs") simp_all
    with Inl show ?thesis by (simp split: option.splits)
  next
    case (Inr ls)
    with Cons.IH obtain ls' where "lines_loop True sc1 x y rs = Inr ls'" "length ls' = length ls"
      by (cases "lines_loop True sc1 x y rs") simp_all
    with Inr show ?thesis by (simp add: Let_def split: option.splits)
  qed
qed

text \<open>
  C8: on a well-formed tree the two size modes fail alike or return alike, and the
  bar widths of the logarithmic run are, entry by entry, the natural logarithms of the
  bar widths (the point counts) of the plain run; so the sequences have equal length.
\<close>

theorem log_size_bar_widths:
  assumes wf: "well_formed t"
  shows "map_sum id bar_widths (get_plot_data t leaf_separation True) =
         map_sum id (\<lambda>r. map ln (bar_widths r)) (get_plot_data t leaf_separation False)"
proof (cases "t = []")
  case True
  then show ?thesis by (simp add: get_plot_data_def)
next
  case False
  note ne = this
  from wf have sizes: "\<forall>r\<in>set t. 1 \<le> child_size r" by (simp add: well_formed_def)
  show ?thesis
  proof (cases "cluster_coords t leaf_separation")
    case (Inl e)
    with ne show ?thesis by (simp add: get_plot_data_def)
  next
    case (Inr xy)
    obtain x y where xy: "xy = (x, y)" by (cases xy)
    let ?bt = "bounds_loop t True (scaling_of t True) x y (cluster_range t)"
    let ?bf = "bounds_loop t False (scaling_of t False) x y (cluster_range t)"
    let ?lt = "lines_loop True (scaling_of t True) x y (cluster_tree t)"
    let ?lf = "lines_loop False (scaling_of t False) x y (cluster_tree t)"
    have bounds: "map_sum id (\<lambda>p. map bar_width (fst p)) ?bt =
                  map_sum id (\<lambda>p. map (\<lambda>b. ln (bar_width b)) (fst p)) ?bf"
      by (rule bounds_loop_log [OF sizes])
    have lines: "map_sum id length ?lt = map_sum id length ?lf"
      by (rule lines_loop_log)
    show ?thesis
    proof (cases ?bf)
      case (Inl e)
      with bounds have "?bt = Inl e" by (cases ?bt) simp_all
      with Inl Inr xy ne show ?thesis by (simp add: get_plot_data_def)
    next
      case bf: (Inr p)
      with bounds obtain p' where bt: "?bt = Inr p'"
        and widths: "map bar_width (fst p') = map (\<lambda>b. ln (bar_width b)) (fst p)"
        by (cases ?bt) simp_all
      show ?thesis
      proof (cases ?lf)
        case (Inl e)
        with lines have "?lt = Inl e" by (cases ?lt) simp_all
        with Inl bf bt Inr xy ne show ?thesis
          by (cases p, cases p') (simp add: get_plot_data_def)
      next
        case lf: (Inr ls)
        with lines obtain ls' where lt: "?lt = Inr ls'" by (cases ?lt) simp_all
        from lf lt bf bt Inr xy ne widths show ?thesis
          by (cases p, cases p') (simp add: get_plot_data_def comp_def)
      qed
    qed
  qed
qed

theorem log_size_bar_widths_witness:
  "map_sum id bar_widths (get_plot_data example_tree 1 True) =
     Inr [ln 2, ln 2, ln 1, ln 5, ln 4]"
proof -
  from example_plain_result obtain r where
    "get_plot_data example_tree 1 False = Inr r" "bar_widths r = [2, 2, 1, 5, 4]" by blast
  with log_size_bar_widths [OF well_formed_example_tree, of 1] show ?thesis by simp
qed

section \<open>The layout returns\<close>

lemma cluster_range_set: "set (cluster_range t) = {root_id t..last_leaf t}"
  by (simp add: cluster_range_def)

lemma cluster_range_descending: "sorted_wrt (\<lambda>a b. a > b) (cluster_range t)"
  by (simp add: cluster_range_def sorted_wrt_rev)

lemma parent_in_cluster_range: "r \<in> set t \<Longrightarrow> parent r \<in> set (cluster_range t)"
  by (simp add: cluster_range_set root_id_le_parent parent_le_last_leaf)

text \<open>
  The first loop. Every child of the cluster tree either has its x-coordinate or is a
  cluster that splits and is still to come; going down the ids, the two children of
  a split are then always placed before their parent.
\<close>

lemma coords_loop_returns:
  assumes ord: "\<forall>r\<in>set (cluster_tree t). parent r < child r"
      and two: "\<forall>r\<in>set (cluster_tree t). length (children_of (cluster_tree t) (parent r)) = 2"
  shows "sorted_wrt (\<lambda>a b. a > b) cs \<Longrightarrow>
         \<forall>r\<in>set (cluster_tree t).
            child r \<in> dom x \<or>
            (child r \<in> set cs \<and> filter (\<lambda>q. parent q = child r) (cluster_tree t) \<noteq> []) \<Longrightarrow>
         \<exists>x' y'. coords_loop t cs (x, y) = Inr (x', y') \<and> dom x \<subseteq> dom x' \<and> dom y \<subseteq> dom y' \<and>
            (\<forall>r\<in>set (cluster_tree t). parent r \<in> set cs \<longrightarrow>
               parent r \<in> dom x' \<and> child r \<in> dom y')"
proof (induction cs arbitrary: x y)
  case Nil
  then show ?case by simp
next
  case (Cons c cs)
  let ?ct = "cluster_tree t"
  let ?split = "filter (\<lambda>q. parent q = c) ?ct"
  from Cons.prems(1) have below: "\<forall>d\<in>set cs. d < c" and srt: "sorted_wrt (\<lambda>a b. a > b) cs"
    by simp_all
  show ?case
  proof (cases "?split = []")
    case True
    have inv: "\<forall>r\<in>set ?ct. child r \<in> dom x \<or>
                 (child r \<in> set cs \<and> filter (\<lambda>q. parent q = child r) ?ct \<noteq> [])"
    proof
      fix r assume "r \<in> set ?ct"
      with Cons.prems(2) have "child r \<in> dom x \<or>
          (child r \<in> set (c # cs) \<and> filter (\<lambda>q. parent q = child r) ?ct \<noteq> [])" by blast
      with True show "child r \<in> dom x \<or>
          (child r \<in> set cs \<and> filter (\<lambda>q. parent q = child r) ?ct \<noteq> [])" by auto
    qed
    from Cons.IH [OF srt inv, of y] obtain x' y' where r:
      "coords_loop t cs (x, y) = Inr (x', y')" "dom x \<subseteq> dom x'" "dom y \<subseteq> dom y'"
      "\<forall>r\<in>set ?ct. parent r \<in> set cs \<longrightarrow> parent r \<in> dom x' \<and> child r \<in> dom y'"
      by blast
    have run: "coords_loop t (c # cs) (x, y) = Inr (x', y')"
      using True r(1) by (simp add: rows_of_cluster)
    have "\<forall>r\<in>set ?ct. parent r \<in> set (c # cs) \<longrightarrow> parent r \<in> dom x' \<and> child r \<in> dom y'"
    proof (intro ballI impI)
      fix r assume r_in: "r \<in> set ?ct" and "parent r \<in> set (c # cs)"
      moreover have "parent r \<noteq> c"
        using True r_in by (auto simp: filter_empty_conv)
      ultimately have "parent r \<in> set cs" by simp
      with r(4) r_in show "parent r \<in> dom x' \<and> child r \<in> dom y'" by blast
    qed
    with run r(2,3) show ?thesis by blast
  next
    case False
    then obtain q where q: "q \<in> set ?ct" "parent q = c"
      by (auto simp: filter_empty_conv)
    with two have "length ?split = 2" by (auto simp: children_of_def)
    then obtain l r where split: "?split = [l, r]"
      by (cases ?split; cases "tl ?split") auto
    have placed: "child k \<in> dom x" if "k \<in> set ?split" for k
    proof -
      from that have k: "k \<in> set ?ct" "parent k = c" by simp_all
      with ord have "c < child k" by auto
      with below have "child k \<notin> set (c # cs)" by auto
      with Cons.prems(2) k(1) show ?thesis by blast
    qed
    from placed [of l] placed [of r] split obtain xl xr where
      xl: "x (child l) = Some xl" and xr: "x (child r) = Some xr" by auto
    let ?x1 = "x(c \<mapsto> (xl + xr) / 2)"
    let ?y1 = "y(child l \<mapsto> lambda l, child r \<mapsto> lambda r)"
    have inv: "\<forall>k\<in>set ?ct. child k \<in> dom ?x1 \<or>
                 (child k \<in> set cs \<and> filter (\<lambda>q. parent q = child k) ?ct \<noteq> [])"
    proof
      fix k assume "k \<in> set ?ct"
      with Cons.prems(2) have "child k \<in> dom x \<or>
          (child k \<in> set (c # cs) \<and> filter (\<lambda>q. parent q = child k) ?ct \<noteq> [])" by blast
      then show "child k \<in> dom ?x1 \<or>
          (child k \<in> set cs \<and> filter (\<lambda>q. parent q = child k) ?ct \<noteq> [])" by auto
    qed
    from Cons.IH [OF srt inv, of ?y1] obtain x' y' where res:
      "coords_loop t cs (?x1, ?y1) = Inr (x', y')" "dom ?x1 \<subseteq> dom x'" "dom ?y1 \<subseteq> dom y'"
      "\<forall>k\<in>set ?ct. parent k \<in> set cs \<longrightarrow> parent k \<in> dom x' \<and> child k \<in> dom y'"
      by blast
    have run: "coords_loop t (c # cs) (x, y) = Inr (x', y')"
      using split xl xr res(1) by (simp add: rows_of_cluster)
    have "\<forall>k\<in>set ?ct. parent k \<in> set (c # cs) \<longrightarrow> parent k \<in> dom x' \<and> child k \<in> dom y'"
    proof (intro ballI impI)
      fix k assume k_in: "k \<in> set ?ct" and pk: "parent k \<in> set (c # cs)"
      show "parent k \<in> dom x' \<and> child k \<in> dom y'"
      proof (cases "parent k = c")
        case True
        with k_in have "k \<in> set ?split" by simp
        with split have "child k \<in> dom ?y1" by auto
        moreover have "c \<in> dom ?x1" by simp
        ultimately show ?thesis using res(2,3) True by blast
      next
        case False
        with pk have "parent k \<in> set cs" by simp
        with res(4) k_in show ?thesis by blast
      qed
    qed
    moreover have "dom x \<subseteq> dom x'" using res(2) by auto
    moreover have "dom y \<subseteq> dom y'" using res(3) by auto
    ultimately show ?thesis using run by blast
  qed
qed

lemma bounds_loop_returns:
  "\<forall>c\<in>set cs. c \<in> dom y \<and> c \<in> dom x \<and> filter (\<lambda>r. parent r = c) t \<noteq> [] \<Longrightarrow>
   \<exists>bars bnds. bounds_loop t lg sc x y cs = Inr (bars, bnds) \<and> map fst bnds = cs"
proof (induction cs)
  case Nil
  then show ?case by simp
next
  case (Cons c cs)
  from Cons.prems obtain lam xc r rs where
    "y c = Some lam" "x c = Some xc" "filter (\<lambda>r. parent r = c) t = r # rs"
    by (cases "filter (\<lambda>r. parent r = c) t") auto
  moreover from Cons obtain bars bnds where
    "bounds_loop t lg sc x y cs = Inr (bars, bnds)" "map fst bnds = cs" by auto
  ultimately show ?case by (simp add: Let_def)
qed

lemma lines_loop_returns:
  "\<forall>r\<in>set rows. child r \<in> dom x \<and> parent r \<in> dom x \<and> child r \<in> dom y \<Longrightarrow>
   \<exists>ls. lines_loop lg sc x y rows = Inr ls \<and> length ls = length rows"
proof (induction rows)
  case Nil
  then show ?case by simp
next
  case (Cons r rs)
  from Cons.prems obtain xc xp yc where
    "x (child r) = Some xc" "x (parent r) = Some xp" "y (child r) = Some yc" by auto
  moreover from Cons obtain ls where
    "lines_loop lg sc x y rs = Inr ls" "length ls = length rs" by auto
  ultimately show ?case by (simp add: Let_def)
qed

text \<open>In a well-formed tree with ordered ids and a cluster edge the root splits.\<close>

lemma root_splits:
  assumes wf: "well_formed t" and ord: "id_ordered t" and ne: "cluster_tree t \<noteq> []"
  shows "\<exists>r\<in>set (cluster_tree t). parent r = root_id t"
proof -
  let ?ct = "cluster_tree t"
  let ?P = "set (map parent ?ct)"
  have fin: "finite ?P" and nonempty: "?P \<noteq> {}" using ne by simp_all
  from Min_in [OF fin nonempty] obtain r where r: "r \<in> set ?ct" "parent r = Min ?P" by auto
  from r(1) cluster_tree_subset have "r \<in> set t" by blast
  with wf have "parent r = root_id t \<or> parent r \<in> set (map child ?ct)"
    by (simp add: well_formed_def)
  moreover have "parent r \<notin> set (map child ?ct)"
  proof
    assume "parent r \<in> set (map child ?ct)"
    then obtain q where q: "q \<in> set ?ct" "child q = parent r" by auto
    with id_ordered_rows [OF ord] have "parent q < parent r" by auto
    moreover have "Min ?P \<le> parent q" using q(1) fin by (intro Min_le) auto
    ultimately show False using r(2) by simp
  qed
  ultimately show ?thesis using r(1) by blast
qed

lemma initial_x_dom: "dom (initial_x t sep) = set (get_leaves t)"
  by (simp add: initial_x_def)

text \<open>The coordinates the first loop leaves behind on a tree that is ready for layout.\<close>

lemma cluster_coords_returns:
  assumes wf: "well_formed t" and ord: "id_ordered t" and ready: "layout_ready t"
  shows "\<exists>x y. cluster_coords t sep = Inr (x, y) \<and>
           (\<forall>c\<in>set (cluster_range t). c \<in> dom x \<and> c \<in> dom y) \<and>
           (\<forall>r\<in>set (cluster_tree t).
              child r \<in> dom x \<and> parent r \<in> dom x \<and> child r \<in> dom y)"
proof -
  let ?ct = "cluster_tree t"
  note rows = id_ordered_rows [OF ord]
  from ready have ne: "?ct \<noteq> []"
    and two: "\<forall>r\<in>set ?ct. length (children_of ?ct (parent r)) = 2"
    and dense: "\<forall>c\<in>set (cluster_range t). c \<in> set (map parent t)"
    by (simp_all add: layout_ready_def)
  have in_range: "parent r \<in> set (cluster_range t)" if "r \<in> set ?ct" for r
    using that cluster_tree_subset parent_in_cluster_range by blast
  have inv: "\<forall>r\<in>set ?ct. child r \<in> dom (initial_x t sep) \<or>
               (child r \<in> set (cluster_range t) \<and>
                filter (\<lambda>q. parent q = child r) ?ct \<noteq> [])"
  proof
    fix r assume r: "r \<in> set ?ct"
    show "child r \<in> dom (initial_x t sep) \<or>
            (child r \<in> set (cluster_range t) \<and> filter (\<lambda>q. parent q = child r) ?ct \<noteq> [])"
    proof (cases "filter (\<lambda>q. parent q = child r) ?ct = []")
      case True
      with r have "child r \<in> set (get_leaves t)" by (auto simp: get_leaves_def)
      then show ?thesis by (simp add: initial_x_dom)
    next
      case False
      then obtain q where "q \<in> set ?ct" "parent q = child r"
        by (auto simp: filter_empty_conv)
      with in_range [of q] False show ?thesis by simp
    qed
  qed
  from coords_loop_returns [OF rows two cluster_range_descending inv, of "[root_id t \<mapsto> 0]"]
  obtain x y where c:
    "coords_loop t (cluster_range t) (initial_x t sep, [root_id t \<mapsto> 0]) = Inr (x, y)"
    "dom (initial_x t sep) \<subseteq> dom x" "dom [root_id t \<mapsto> 0::real] \<subseteq> dom y"
    "\<forall>r\<in>set ?ct. parent r \<in> set (cluster_range t) \<longrightarrow> parent r \<in> dom x \<and> child r \<in> dom y"
    by blast
  have ends: "child r \<in> dom x \<and> parent r \<in> dom x \<and> child r \<in> dom y" if r: "r \<in> set ?ct" for r
  proof -
    from c(4) r in_range [OF r] have py: "parent r \<in> dom x" "child r \<in> dom y" by blast+
    have "child r \<in> dom x"
    proof (cases "filter (\<lambda>q. parent q = child r) ?ct = []")
      case True
      with r have "child r \<in> set (get_leaves t)" by (auto simp: get_leaves_def)
      with c(2) show ?thesis by (auto simp: initial_x_dom)
    next
      case False
      then obtain q where q: "q \<in> set ?ct" "parent q = child r"
        by (auto simp: filter_empty_conv)
      from c(4) q(1) in_range [OF q(1)] q(2) show ?thesis by auto
    qed
    with py show ?thesis by simp
  qed
  from root_splits [OF wf ord ne] obtain r0 where r0: "r0 \<in> set ?ct" "parent r0 = root_id t"
    by blast
  have root_x: "root_id t \<in> dom x" using ends [OF r0(1)] r0(2) by simp
  have root_y: "root_id t \<in> dom y" using c(3) by auto
  have range: "c \<in> dom x \<and> c \<in> dom y" if "c \<in> set (cluster_range t)" for c
  proof -
    from dense that obtain r where r: "r \<in> set t" "parent r = c" by auto
    with wf have "c = root_id t \<or> c \<in> set (map child ?ct)"
      by (auto simp: well_formed_def)
    then show ?thesis
    proof
      assume "c = root_id t"
      with root_x root_y show ?thesis by simp
    next
      assume "c \<in> set (map child ?ct)"
      then obtain q where "q \<in> set ?ct" "child q = c" by auto
      with ends [of q] show ?thesis by auto
    qed
  qed
  from c(1) range ends show ?thesis by (auto simp: cluster_coords_def)
qed

lemma get_plot_data_returns:
  assumes wf: "well_formed t" and ord: "id_ordered t" and ready: "layout_ready t"
  shows "\<exists>r. get_plot_data t sep lg = Inr r \<and>
             map fst (cluster_bounds r) = cluster_range t \<and>
             length (line_xs r) = length (cluster_tree t)"
proof -
  from wf have ne: "t \<noteq> []" by (simp add: well_formed_def)
  from ready have dense: "\<forall>c\<in>set (cluster_range t). c \<in> set (map parent t)"
    by (simp add: layout_ready_def)
  from cluster_coords_returns [OF wf ord ready, of sep] obtain x y where c:
    "cluster_coords t sep = Inr (x, y)"
    "\<forall>c\<in>set (cluster_range t). c \<in> dom x \<and> c \<in> dom y"
    "\<forall>r\<in>set (cluster_tree t). child r \<in> dom x \<and> parent r \<in> dom x \<and> child r \<in> dom y"
    by blast
  have "\<forall>c\<in>set (cluster_range t).
          c \<in> dom y \<and> c \<in> dom x \<and> filter (\<lambda>r. parent r = c) t \<noteq> []"
    using c(2) dense by (auto simp: filter_empty_conv)
  from bounds_loop_returns [OF this, of lg "scaling_of t lg"] obtain bars bnds where b:
    "bounds_loop t lg (scaling_of t lg) x y (cluster_range t) = Inr (bars, bnds)"
    "map fst bnds = cluster_range t" by blast
  from lines_loop_returns [OF c(3), of lg "scaling_of t lg"] obtain ls where l:
    "lines_loop lg (scaling_of t lg) x y (cluster_tree t) = Inr ls"
    "length ls = length (cluster_tree t)" by blast
  from ne c(1) b l show ?thesis by (simp add: get_plot_data_def)
qed

lemma layout_ready_example_tree: "layout_ready example_tree"
  by (simp add: layout_ready_def example_tree_def cluster_tree_def children_of_def
                cluster_range_def root_id_def last_leaf_def upto.simps)

lemma layout_ready_unordered_layout_tree: "layout_ready unordered_layout_tree"
  by (simp add: layout_ready_def unordered_layout_tree_def cluster_tree_def children_of_def
                cluster_range_def root_id_def last_leaf_def upto.simps)

text \<open>
  C3, as stated: the layout completes on every well-formed tree, also when a cluster
  has a single cluster child. On a root with one cluster child and one point the
  child never gets a y-coordinate (only splits with two children assign one), and
  the second loop raises \<open>KeyError\<close>. And where the ids do not follow the
  hierarchy (root 0 with clusters 2 and 5, cluster 2 with 1 and 6, cluster 1 with 3
  and 4) the first loop reaches cluster 2 before its child 1 has an x-coordinate and
  raises \<open>KeyError\<close>, although every split has two children and every id from 0
  to 2 is a parent.
\<close>

theorem layout_completes_counterexample:
  "well_formed chain_tree \<and> get_plot_data chain_tree 1 False = Inl KeyError \<and>
   well_formed unordered_layout_tree \<and> layout_ready unordered_layout_tree \<and>
   get_plot_data unordered_layout_tree 1 False = Inl KeyError"
proof -
  have "get_plot_data chain_tree 1 False = Inl KeyError"
    by (simp add: layout_eval chain_tree_def)
  moreover have "get_plot_data unordered_layout_tree 1 False = Inl KeyError"
    by (simp add: layout_eval unordered_layout_tree_def)
  ultimately show ?thesis
    using well_formed_chain_tree well_formed_unordered_layout_tree
      layout_ready_unordered_layout_tree by simp
qed

text \<open>
  C3, amended: on a well-formed tree whose cluster children have larger ids than
  their parents, that has a cluster edge, in which every cluster that splits has
  exactly two cluster children and every id from the root to \<open>max(parent)\<close> is a
  parent, \<open>get_plot_data\<close> returns a layout, in either size mode; every cluster
  of the range and both ends of every cluster edge have their coordinates.
\<close>

theorem layout_completes:
  assumes wf: "well_formed t" and ord: "id_ordered t" and ready: "layout_ready t"
  shows "(\<exists>r. get_plot_data t leaf_separation log_size = Inr r) \<and>
         (\<exists>x y. cluster_coords t leaf_separation = Inr (x, y) \<and>
            (\<forall>c\<in>set (cluster_range t). x c \<noteq> None \<and> y c \<noteq> None) \<and>
            (\<forall>r\<in>set (cluster_tree t).
               x (child r) \<noteq> None \<and> x (parent r) \<noteq> None \<and> y (child r) \<noteq> None))"
proof
  from get_plot_data_returns [OF wf ord ready, of leaf_separation log_size]
  show "\<exists>r. get_plot_data t leaf_separation log_size = Inr r" by blast
next
  from cluster_coords_returns [OF wf ord ready, of leaf_separation] obtain x y where
    "cluster_coords t leaf_separation = Inr (x, y)"
    "\<forall>c\<in>set (cluster_range t). c \<in> dom x \<and> c \<in> dom y"
    "\<forall>r\<in>set (cluster_tree t). child r \<in> dom x \<and> parent r \<in> dom x \<and> child r \<in> dom y"
    by blast
  then show "\<exists>x y. cluster_coords t leaf_separation = Inr (x, y) \<and>
            (\<forall>c\<in>set (cluster_range t). x c \<noteq> None \<and> y c \<noteq> None) \<and>
            (\<forall>r\<in>set (cluster_tree t).
               x (child r) \<noteq> None \<and> x (parent r) \<noteq> None \<and> y (child r) \<noteq> None)"
    by (auto simp: domIff)
qed

theorem layout_completes_witness:
  "(\<exists>r. get_plot_data example_tree 1 True = Inr r) \<and>
   (\<exists>x y. cluster_coords example_tree 1 = Inr (x, y) \<and>
      map x [7, 6, 5] = [Some 1, Some 0, Some (1 / 2)] \<and>
      map y [7, 6, 5] = [Some (1 / 2), Some (1 / 2), Some 0])"
proof -
  from layout_completes [OF well_formed_example_tree id_ordered_example_tree
      layout_ready_example_tree, of 1 True]
  have "\<exists>r. get_plot_data example_tree 1 True = Inr r" by blast
  moreover have "\<exists>x y. cluster_coords example_tree 1 = Inr (x, y) \<and>
      map x [7, 6, 5] = [Some 1, Some 0, Some (1 / 2)] \<and>
      map y [7, 6, 5] = [Some (1 / 2), Some (1 / 2), Some 0]"
    by (simp add: layout_eval example_tree_def)
  ultimately show ?thesis by simp
qed

section \<open>Bounding boxes\<close>

lemma coords_loop_dom_y:
  "coords_loop t cs (x, y) = Inr (x', y') \<Longrightarrow>
   dom y' \<subseteq> dom y \<union> set (map child (cluster_tree t))"
proof (induction cs arbitrary: x y)
  case Nil
  then show ?case by auto
next
  case (Cons c cs)
  let ?split = "filter (\<lambda>q. parent q = c) (cluster_tree t)"
  show ?case
  proof (cases "length ?split > 1")
    case False
    with Cons.prems have "coords_loop t cs (x, y) = Inr (x', y')"
      by (simp add: rows_of_cluster)
    from Cons.IH [OF this] show ?thesis .
  next
    case True
    with Cons.prems obtain l r where split: "?split = [l, r]"
      by (cases ?split; cases "tl ?split"; cases "tl (tl ?split)")
         (auto simp: rows_of_cluster)
    from Cons.prems True split obtain xl xr where
      "x (child l) = Some xl" "x (child r) = Some xr"
      by (cases "x (child l)"; cases "x (child r)") (auto simp: rows_of_cluster)
    with Cons.prems split have
      "coords_loop t cs (x(c \<mapsto> (xl + xr) / 2), y(child l \<mapsto> lambda l, child r \<mapsto> lambda r)) =
         Inr (x', y')"
      by (simp add: rows_of_cluster)
    from Cons.IH [OF this]
    have "dom y' \<subseteq> dom (y(child l \<mapsto> lambda l, child r \<mapsto> lambda r)) \<union>
                   set (map child (cluster_tree t))" .
    moreover have "l \<in> set ?split" "r \<in> set ?split" using split by simp_all
    then have "child l \<in> set (map child (cluster_tree t))"
      "child r \<in> set (map child (cluster_tree t))" by auto
    ultimately show ?thesis by auto
  qed
qed

lemma bounds_loop_keys:
  "bounds_loop t lg sc x y cs = Inr (bars, bnds) \<Longrightarrow>
   map fst bnds = cs \<and> (\<forall>c\<in>set cs. c \<in> dom y)"
proof (induction cs arbitrary: bars bnds)
  case Nil
  then show ?case by simp
next
  case (Cons c cs)
  from Cons.prems obtain lam xc bars0 bnds0 where
    "y c = Some lam" "x c = Some xc" "bounds_loop t lg sc x y cs = Inr (bars0, bnds0)"
    "map fst bnds = c # map fst bnds0"
    by (rule bounds_loop_Cons_Inr)
  with Cons.IH [of bars0 bnds0] show ?case by auto
qed

lemma clusters_have_rows_example_tree: "clusters_have_rows example_tree"
  by (simp add: clusters_have_rows_def example_tree_def cluster_tree_def)

text \<open>
  C7, as stated: the number of bounding boxes equals the number of clusters. On the
  scenario tree the layout returns two boxes, for the ids 1 and 0 of
  \<open>range(max(parent), root - 1, -1)\<close>, while the tree has the five clusters 0 to 4.
\<close>

theorem bounding_boxes_counterexample:
  "well_formed scenario_tree \<and>
   map_sum id (\<lambda>r. length (cluster_bounds r)) (get_plot_data scenario_tree 1 False) = Inr 2 \<and>
   card (insert (root_id scenario_tree) (set (map child (cluster_tree scenario_tree)))) = 5"
proof -
  have "map_sum id (\<lambda>r. length (cluster_bounds r)) (get_plot_data scenario_tree 1 False) = Inr 2"
    by (simp add: layout_eval scenario_tree_def)
  moreover have
    "card (insert (root_id scenario_tree) (set (map child (cluster_tree scenario_tree)))) = 5"
    by (simp add: scenario_tree_def cluster_tree_def root_id_def)
  ultimately show ?thesis using well_formed_scenario_tree by simp
qed

text \<open>
  C7, amended: on a tree in which every cluster occurs as a parent, whenever
  \<open>get_plot_data\<close> returns, \<open>cluster_bounds\<close> has one box for each cluster
  (the root and every child of the cluster tree) and no other, so as many boxes as
  the cluster tree has nodes. It does return when the tree is well-formed, its
  cluster children have larger ids than their parents, it has a cluster edge, every
  cluster that splits has exactly two cluster children and every id from the root to
  \<open>max(parent)\<close> is a parent.
\<close>

theorem bounding_boxes_count:
  assumes rows: "clusters_have_rows t"
  shows "(\<forall>r. get_plot_data t leaf_separation log_size = Inr r \<longrightarrow>
            distinct (map fst (cluster_bounds r)) \<and>
            set (map fst (cluster_bounds r)) =
              insert (root_id t) (set (map child (cluster_tree t))) \<and>
            length (cluster_bounds r) =
              card (insert (root_id t) (set (map child (cluster_tree t))))) \<and>
         (well_formed t \<and> id_ordered t \<and> layout_ready t \<longrightarrow>
            (\<exists>r. get_plot_data t leaf_separation log_size = Inr r))"
proof (intro conjI allI impI)
  assume "well_formed t \<and> id_ordered t \<and> layout_ready t"
  then have "well_formed t" "id_ordered t" "layout_ready t" by simp_all
  from get_plot_data_returns [OF this, of leaf_separation log_size]
  show "\<exists>r. get_plot_data t leaf_separation log_size = Inr r" by blast
next
  fix r assume run: "get_plot_data t leaf_separation log_size = Inr r"
  let ?clusters = "insert (root_id t) (set (map child (cluster_tree t)))"
  from run obtain x y bars ls where
    ne: "t \<noteq> []" and
    c: "cluster_coords t leaf_separation = Inr (x, y)" and
    b: "bounds_loop t log_size (scaling_of t log_size) x y (cluster_range t) =
          Inr (bars, cluster_bounds r)" and
    "lines_loop log_size (scaling_of t log_size) x y (cluster_tree t) = Inr ls"
    by (rule get_plot_data_InrE) blast
  from bounds_loop_keys [OF b]
  have keys: "map fst (cluster_bounds r) = cluster_range t"
    and has_y: "\<forall>c\<in>set (cluster_range t). c \<in> dom y" by simp_all
  from c have "dom y \<subseteq> dom [root_id t \<mapsto> 0::real] \<union> set (map child (cluster_tree t))"
    unfolding cluster_coords_def by (rule coords_loop_dom_y)
  with has_y have sub: "set (cluster_range t) \<subseteq> ?clusters" by auto
  have "root_id t \<in> set (cluster_range t)"
    using root_id_le_last_leaf [OF ne] by (simp add: cluster_range_set)
  moreover have "child q \<in> set (cluster_range t)" if "q \<in> set (cluster_tree t)" for q
  proof -
    from rows that obtain p where "p \<in> set t" "parent p = child q"
      by (auto simp: clusters_have_rows_def)
    with parent_in_cluster_range [of p t] show ?thesis by simp
  qed
  ultimately have "?clusters \<subseteq> set (cluster_range t)" by auto
  with sub have eq: "set (cluster_range t) = ?clusters" by blast
  have dist: "distinct (cluster_range t)" by (simp add: cluster_range_def)
  show "distinct (map fst (cluster_bounds r))" using keys dist by simp
  show "set (map fst (cluster_bounds r)) = ?clusters" using keys eq by simp
  have "length (cluster_bounds r) = length (cluster_range t)"
    using keys by (metis length_map)
  also have "\<dots> = card (set (cluster_range t))" using dist by (simp add: distinct_card)
  finally show "length (cluster_bounds r) = card ?clusters" using eq by simp
qed

theorem bounding_boxes_count_witness:
  "\<exists>r. get_plot_data example_tree 1 False = Inr r \<and>
       map fst (cluster_bounds r) = [7, 6, 5] \<and>
       length (cluster_bounds r) =
         card (insert (root_id example_tree) (set (map child (cluster_tree example_tree))))"
proof -
  from example_plain_result obtain r where
    r: "get_plot_data example_tree 1 False = Inr r" "map fst (cluster_bounds r) = [7, 6, 5]"
    by (elim exE conjE)
  from bounding_boxes_count [OF clusters_have_rows_example_tree, of 1 False] r(1)
  have "length (cluster_bounds r) =
         card (insert (root_id example_tree) (set (map child (cluster_tree example_tree))))"
    by simp
  with r show ?thesis by simp
qed

section \<open>The order of rows of equal lambda\<close>

text \<open>
  \<open>np.argsort\<close> promises a sorted order, not a stable one. The bars do not depend
  on the choice: a run of rows of one lambda emits at most its first bar, and leaves
  the running size reduced by the weight of the whole run.
\<close>

lemma bar_loop_tie_group:
  "\<forall>r\<in>set g. lambda r = v \<Longrightarrow> g \<noteq> [] \<Longrightarrow>
   bar_loop False ctr (g @ rest) current_size lam =
     (if v \<noteq> lam
      then [\<lparr>bar_center = ctr, bar_top = v - lam, bar_bottom = lam, bar_width = current_size\<rparr>]
      else [])
     @ bar_loop False ctr rest
         (current_size - real_of_int (sum_list (map child_size g))) v"
proof (induction g arbitrary: current_size lam)
  case Nil
  then show ?case by simp
next
  case (Cons r g)
  show ?case
  proof (cases "g = []")
    case True
    with Cons.prems show ?thesis by simp
  next
    case False
    from Cons.prems(1) have "\<forall>q\<in>set g. lambda q = v" "lambda r = v" by simp_all
    with Cons.IH [OF _ False, of "current_size - real_of_int (child_size r)" v]
    show ?thesis by (simp add: algebra_simps)
  qed
qed

lemma bar_loop_sorted_permutation:
  "sorted (map lambda rows1) \<Longrightarrow> sorted (map lambda rows2) \<Longrightarrow> mset rows1 = mset rows2 \<Longrightarrow>
   bar_loop False ctr rows1 current_size lam = bar_loop False ctr rows2 current_size lam"
proof (induction rows1 arbitrary: rows2 current_size lam)
  case Nil
  then show ?case by simp
next
  case (Cons a rows1)
  from Cons.prems(3) have "a \<in> set rows2"
    by (metis list.set_intros(1) mset_eq_setD)
  then obtain pre post where split: "rows2 = pre @ a # post"
    by (meson split_list)
  have low: "\<forall>q\<in>set rows2. lambda a \<le> lambda q"
  proof
    fix q assume "q \<in> set rows2"
    with Cons.prems(3) have "q \<in> set (a # rows1)" by (metis mset_eq_setD)
    with Cons.prems(1) show "lambda a \<le> lambda q" by auto
  qed
  have pre_tie: "\<forall>q\<in>set (pre @ [a]). lambda q = lambda a"
  proof
    fix q assume q: "q \<in> set (pre @ [a])"
    show "lambda q = lambda a"
    proof (cases "q = a")
      case True
      then show ?thesis by simp
    next
      case False
      with q have "q \<in> set pre" by simp
      with Cons.prems(2) split have "lambda q \<le> lambda a"
        by (auto simp: sorted_append)
      moreover from low split \<open>q \<in> set pre\<close> have "lambda a \<le> lambda q" by simp
      ultimately show ?thesis by simp
    qed
  qed
  have front_tie: "\<forall>q\<in>set (a # pre). lambda q = lambda a" using pre_tie by simp
  have "bar_loop False ctr rows2 current_size lam =
        bar_loop False ctr ((pre @ [a]) @ post) current_size lam"
    by (simp add: split)
  also have "\<dots> = bar_loop False ctr ((a # pre) @ post) current_size lam"
  proof -
    have "pre @ [a] \<noteq> []" "a # pre \<noteq> []" by simp_all
    note e1 = bar_loop_tie_group [OF pre_tie this(1), of ctr post current_size lam]
    note e2 = bar_loop_tie_group [OF front_tie \<open>a # pre \<noteq> []\<close>, of ctr post current_size lam]
    have "sum_list (map child_size (pre @ [a])) = sum_list (map child_size (a # pre))"
      by simp
    with e1 e2 show ?thesis by (simp only:)
  qed
  finally have moved: "bar_loop False ctr rows2 current_size lam =
                       bar_loop False ctr (a # pre @ post) current_size lam" by simp
  have "sorted (map lambda rows1)" using Cons.prems(1) by simp
  moreover have "sorted (map lambda (pre @ post))"
    using Cons.prems(2) split by (auto simp: sorted_append)
  moreover have "mset rows1 = mset (pre @ post)"
    using Cons.prems(3) split by simp
  ultimately have "bar_loop False ctr rows1 (current_size - real_of_int (child_size a)) (lambda a) =
                   bar_loop False ctr (pre @ post) (current_size - real_of_int (child_size a)) (lambda a)"
    by (rule Cons.IH)
  with moved show ?case by simp
qed

text \<open>So any sorted arrangement of the rows gives the bars of the stable one.\<close>

lemma bar_loop_any_argsort:
  assumes "sorted (map lambda rows')" and "mset rows' = mset rows"
  shows "bar_loop False ctr rows' current_size lam =
         bar_loop False ctr (sort_key lambda rows) current_size lam"
  using assms by (intro bar_loop_sorted_permutation) simp_all

end
